theory Spec2Isabelle
  imports Complex_Main
begin

section \<open>Strings\<close>

text \<open>
  A JavaScript string is a sequence of UTF-16 code units; a code unit is modelled by its
  number. The Cyrillic literals of the source are written as the code units of the text as
  it stands in \<^verbatim>\<open>src/index.ts\<close> (the second copy of the source holds the same literals
  in a broken encoding).
\<close>

type_synonym jsstring = "nat list"

definition isWhiteSpace :: "nat \<Rightarrow> bool" where
  \<comment> \<open>what \<^verbatim>\<open>String.prototype.trim\<close> strips and \<^verbatim>\<open>\s\<close> matches: WhiteSpace and LineTerminator\<close>
  "isWhiteSpace c =
     (c = 9 \<or> c = 10 \<or> c = 11 \<or> c = 12 \<or> c = 13 \<or> c = 32 \<or> c = 160 \<or> c = 5760
      \<or> (8192 \<le> c \<and> c \<le> 8202) \<or> c = 8232 \<or> c = 8233 \<or> c = 8239 \<or> c = 8287
      \<or> c = 12288 \<or> c = 65279)"

definition isDigit :: "nat \<Rightarrow> bool" where
  \<comment> \<open>\<^verbatim>\<open>\d\<close>\<close>
  "isDigit c = (48 \<le> c \<and> c \<le> 57)"

definition trim :: "jsstring \<Rightarrow> jsstring" where
  "trim s = rev (dropWhile isWhiteSpace (rev (dropWhile isWhiteSpace s)))"

fun replaceCRLF :: "jsstring \<Rightarrow> jsstring" where
  \<comment> \<open>\<^verbatim>\<open>.replace(/\r\n/g, '\n')\<close>\<close>
  "replaceCRLF (c # d # cs) =
     (if c = 13 \<and> d = 10 then 10 # replaceCRLF cs else c # replaceCRLF (d # cs))"
| "replaceCRLF cs = cs"

fun splitNL :: "jsstring \<Rightarrow> jsstring list" where
  \<comment> \<open>\<^verbatim>\<open>.split('\n')\<close>: never the empty array\<close>
  "splitNL [] = [[]]"
| "splitNL (c # cs) =
     (if c = 10 then [] # splitNL cs
      else (case splitNL cs of [] \<Rightarrow> [[c]] | l # ls \<Rightarrow> (c # l) # ls))"

fun joinNL :: "jsstring list \<Rightarrow> jsstring" where
  \<comment> \<open>\<^verbatim>\<open>.join('\n')\<close>\<close>
  "joinNL [] = []"
| "joinNL [l] = l"
| "joinNL (l # ls) = l @ 10 # joinNL ls"

definition normalizeMultilineText :: "jsstring \<Rightarrow> jsstring" where
  "normalizeMultilineText raw =
     trim (joinNL (filter (\<lambda>line. length line > 0) (map trim (splitNL (replaceCRLF raw)))))"

section \<open>Subgroup ids\<close>

definition POSSIBLE_GROUPS :: "jsstring list" where
  \<comment> \<open>1.1, 1.2, 2.1, 2.2, 3.1, 3.2, 4.1, 4.2, 5.1, 5.2, 6.1, 6.2\<close>
  "POSSIBLE_GROUPS =
     [[49, 46, 49], [49, 46, 50], [50, 46, 49], [50, 46, 50], [51, 46, 49], [51, 46, 50],
      [52, 46, 49], [52, 46, 50], [53, 46, 49], [53, 46, 50], [54, 46, 49], [54, 46, 50]]"

definition digitsValue :: "jsstring \<Rightarrow> nat" where
  \<comment> \<open>the number a run of decimal digits denotes\<close>
  "digitsValue ds = foldl (\<lambda>a c. 10 * a + (c - 48)) 0 ds"

fun decDigits :: "nat \<Rightarrow> jsstring" where
  \<comment> \<open>an integer in decimal, as a template literal renders it\<close>
  "decDigits n = (if n < 10 then [48 + n] else decDigits (n div 10) @ [48 + n mod 10])"

declare decDigits.simps [simp del]

definition renderNumber :: "(nat \<Rightarrow> jsstring) \<Rightarrow> jsstring \<Rightarrow> jsstring" where
  \<comment> \<open>\<^verbatim>\<open>`${Number(ds)}`\<close> for a run of digits \<open>ds\<close>. Up to \<open>2^53\<close> the number is exact and
      is rendered in decimal; above, the runtime rounds it to a double and renders that:
      this rendering is the parameter \<open>big\<close>.\<close>
  "renderNumber big ds =
     (let n = digitsValue ds in if n \<le> 9007199254740992 then decDigits n else big n)"

definition isSeparator :: "nat \<Rightarrow> bool" where
  \<comment> \<open>\<^verbatim>\<open>[.,]\<close>\<close>
  "isSeparator c = (c = 46 \<or> c = 44)"

definition matchTokenAt :: "jsstring \<Rightarrow> (jsstring \<times> jsstring \<times> jsstring) option" where
  \<comment> \<open>\<^verbatim>\<open>(\d+)[.,](\d+)\<close> matched at the start of \<open>s\<close>: the two captures and the text after
      the match. Both runs are greedy, and giving back digits never helps, since the
      character after a shortened run is a digit.\<close>
  "matchTokenAt s =
     (let d1 = takeWhile isDigit s; r = dropWhile isDigit s in
      if d1 = [] then None
      else (case r of
              [] \<Rightarrow> None
            | c # r' \<Rightarrow>
                if isSeparator c \<and> takeWhile isDigit r' \<noteq> []
                then Some (d1, takeWhile isDigit r', dropWhile isDigit r')
                else None))"

function execAll :: "jsstring \<Rightarrow> (jsstring \<times> jsstring) list" where
  \<comment> \<open>the \<^verbatim>\<open>while ((m = re.exec(raw)) !== null)\<close> loop of a global regular expression:
      the leftmost match from the current position, then on from its end\<close>
  "execAll [] = []"
| "execAll (c # cs) =
     (case matchTokenAt (c # cs) of
        Some (m1, m2, rest) \<Rightarrow> (m1, m2) # execAll rest
      | None \<Rightarrow> execAll cs)"
  by pat_completeness auto
termination
proof (relation "measure length")
  show "wf (measure length)" by simp
next
  fix c cs and x :: "jsstring \<times> jsstring \<times> jsstring" and m1 y m2 rest
  assume m: "matchTokenAt (c # cs) = Some x" and x: "(m1, y) = x" and y: "(m2, rest) = y"
  let ?r = "dropWhile isDigit (c # cs)"
  from m x y obtain d r' where r: "?r = d # r'" and rest: "rest = dropWhile isDigit r'"
    by (auto simp: matchTokenAt_def Let_def split: if_splits list.splits)
  have "length rest \<le> length r'" unfolding rest by (rule length_dropWhile_le)
  also have "\<dots> < length ?r" unfolding r by simp
  also have "\<dots> \<le> length (c # cs)" by (rule length_dropWhile_le)
  finally show "(rest, c # cs) \<in> measure length" by simp
next
  fix c cs
  assume "matchTokenAt (c # cs) = None"
  show "(cs, c # cs) \<in> measure length" by simp
qed

definition matchGroupId :: "jsstring \<Rightarrow> (jsstring \<times> jsstring) option" where
  \<comment> \<open>\<^verbatim>\<open>^(\d+)[.,](\d+)$\<close>\<close>
  "matchGroupId s =
     (case matchTokenAt s of
        Some (m1, m2, rest) \<Rightarrow> if rest = [] then Some (m1, m2) else None
      | None \<Rightarrow> None)"

definition normalizeGroupId :: "(nat \<Rightarrow> jsstring) \<Rightarrow> jsstring \<Rightarrow> jsstring option" where
  "normalizeGroupId big raw =
     (let s = trim raw in
      if s = [] then None
      else (case matchGroupId s of
              None \<Rightarrow> None
            | Some (m1, m2) \<Rightarrow> Some (renderNumber big m1 @ [46] @ renderNumber big m2)))"

definition pushGroup :: "(nat \<Rightarrow> jsstring) \<Rightarrow> jsstring list \<Rightarrow> jsstring \<times> jsstring \<Rightarrow> jsstring list" where
  \<comment> \<open>one turn of the loop: \<^verbatim>\<open>if (g && !out.includes(g)) out.push(g)\<close>\<close>
  "pushGroup big out m =
     (case normalizeGroupId big (fst m @ [46] @ snd m) of
        None \<Rightarrow> out
      | Some g \<Rightarrow> if g \<noteq> [] \<and> g \<notin> set out then out @ [g] else out)"

definition parseGroupsFromUserInput :: "(nat \<Rightarrow> jsstring) \<Rightarrow> jsstring \<Rightarrow> jsstring list" where
  "parseGroupsFromUserInput big raw =
     filter (\<lambda>g. g \<in> set POSSIBLE_GROUPS) (foldl (pushGroup big) [] (execAll raw))"

definition ascii :: "string \<Rightarrow> jsstring" where
  \<comment> \<open>an ASCII literal of the source as code units\<close>
  "ascii s = map of_char s"

definition indexOf :: "'a list \<Rightarrow> 'a \<Rightarrow> int" where
  \<comment> \<open>\<^verbatim>\<open>arr.indexOf(g)\<close>: the first position of \<open>g\<close>, or -1\<close>
  "indexOf arr g =
     (if g \<in> set arr then int (length (takeWhile (\<lambda>x. x \<noteq> g) arr)) else - 1)"

definition firstOccurrences :: "'a list \<Rightarrow> 'a list" where
  \<comment> \<open>\<^verbatim>\<open>arr.filter((g, idx, arr) => arr.indexOf(g) === idx)\<close>\<close>
  "firstOccurrences arr =
     map fst (filter (\<lambda>(g, idx). indexOf arr g = int idx) (zip arr [0..<length arr]))"

section \<open>The subscriber record and the store\<close>

datatype pendingStep = Groups | GroupsAdd | GroupsRemove

datatype tomorrowStatus = Missing | Present

record userState =
  groups :: "jsstring list option"
  pendingStep :: "pendingStep option"
  watching :: bool
  lastLoeCheckedAt :: "jsstring option"
  lastLoeNotifiedAt :: "jsstring option"
  lastLoeWatchedText :: "jsstring option"
  lastLoeError :: "jsstring option"
  lastLoeTomorrowCheckedAt :: "jsstring option"
  lastLoeTomorrowNotifiedAt :: "jsstring option"
  lastLoeTomorrowWatchedText :: "jsstring option"
  lastLoeTomorrowStatus :: "tomorrowStatus option"
  lastLoeTomorrowError :: "jsstring option"

record botState =
  users :: "jsstring \<rightharpoonup> userState"

definition emptyState :: botState where
  \<comment> \<open>\<^verbatim>\<open>{ users: {} }\<close>\<close>
  "emptyState = \<lparr>users = Map.empty\<rparr>"

definition currentGroups :: "userState \<Rightarrow> jsstring list" where
  \<comment> \<open>\<^verbatim>\<open>user.groups ?? []\<close>\<close>
  "currentGroups u = (case groups u of None \<Rightarrow> [] | Some gs \<Rightarrow> gs)"

definition setGroupsFromText :: "(nat \<Rightarrow> jsstring) \<Rightarrow> jsstring \<Rightarrow> userState \<Rightarrow> userState" where
  \<comment> \<open>the text handler while \<^verbatim>\<open>pendingStep\<close> is \<^verbatim>\<open>'groups'\<close>: input without a valid
      subgroup changes nothing\<close>
  "setGroupsFromText big msg u =
     (let gs = parseGroupsFromUserInput big msg in
      if length gs = 0 then u
      else u\<lparr>groups := Some gs, pendingStep := None, watching := True,
              lastLoeWatchedText := None, lastLoeError := None\<rparr>)"

definition addGroupsFromText :: "(nat \<Rightarrow> jsstring) \<Rightarrow> jsstring \<Rightarrow> userState \<Rightarrow> userState" where
  \<comment> \<open>\<^verbatim>\<open>addGroupCommand\<close> with arguments, and the text handler of \<^verbatim>\<open>'groups_add'\<close>\<close>
  "addGroupsFromText big tail u =
     (let toAdd = parseGroupsFromUserInput big tail in
      if length toAdd = 0 then u
      else u\<lparr>groups := Some (firstOccurrences (currentGroups u @ toAdd)), pendingStep := None,
              lastLoeWatchedText := None, lastLoeError := None\<rparr>)"

definition removeGroupsFromText :: "(nat \<Rightarrow> jsstring) \<Rightarrow> jsstring \<Rightarrow> userState \<Rightarrow> userState" where
  \<comment> \<open>\<^verbatim>\<open>removeGroupCommand\<close> with arguments, and the text handler of \<^verbatim>\<open>'groups_remove'\<close>\<close>
  "removeGroupsFromText big tail u =
     (let toRemove = parseGroupsFromUserInput big tail in
      if length toRemove = 0 then u
      else u\<lparr>groups := Some (filter (\<lambda>g. g \<notin> set toRemove) (currentGroups u)),
              pendingStep := None, lastLoeWatchedText := None, lastLoeError := None\<rparr>)"

definition validGroups :: "jsstring list \<Rightarrow> bool" where
  \<comment> \<open>the invariant of the spec on \<^verbatim>\<open>subgroups\<close>: valid ids only, none twice\<close>
  "validGroups gs = (set gs \<subseteq> set POSSIBLE_GROUPS \<and> distinct gs)"

section \<open>Loading the store\<close>

text \<open>
  A value as \<^verbatim>\<open>JSON.parse\<close> returns it. An object is the list of its members, one per
  key. Of a number the code reads only whether it is zero.
\<close>

datatype json =
  JNull | JBool bool | JNum real | JStr jsstring | JArr "json list" | JObj "(jsstring \<times> json) list"

datatype exn = Exn (code: "jsstring option") (message: "jsstring option")

definition getField :: "json \<Rightarrow> jsstring \<Rightarrow> json option" where
  \<comment> \<open>\<^verbatim>\<open>v.key\<close> for the keys the code reads (none of them is inherited from a prototype);
      \<open>None\<close> is \<^verbatim>\<open>undefined\<close>\<close>
  "getField v k = (case v of JObj kvs \<Rightarrow> map_of kvs k | _ \<Rightarrow> None)"

definition isObject :: "json option \<Rightarrow> bool" where
  \<comment> \<open>\<^verbatim>\<open>typeof v === 'object' && v !== null\<close>: an object or an array\<close>
  "isObject v = (case v of Some (JObj _) \<Rightarrow> True | Some (JArr _) \<Rightarrow> True | _ \<Rightarrow> False)"

definition toBoolean :: "json option \<Rightarrow> bool" where
  \<comment> \<open>\<^verbatim>\<open>Boolean(v)\<close>\<close>
  "toBoolean v =
     (case v of
        None \<Rightarrow> False
      | Some JNull \<Rightarrow> False
      | Some (JBool b) \<Rightarrow> b
      | Some (JNum x) \<Rightarrow> x \<noteq> 0
      | Some (JStr s) \<Rightarrow> s \<noteq> []
      | Some (JArr _) \<Rightarrow> True
      | Some (JObj _) \<Rightarrow> True)"

definition stringOrUndefined :: "json option \<Rightarrow> jsstring option" where
  \<comment> \<open>\<^verbatim>\<open>typeof v === 'string' ? v : undefined\<close>\<close>
  "stringOrUndefined v = (case v of Some (JStr s) \<Rightarrow> Some s | _ \<Rightarrow> None)"

definition stringsOf :: "json list \<Rightarrow> jsstring list" where
  \<comment> \<open>\<^verbatim>\<open>.filter((x) => typeof x === 'string')\<close>\<close>
  "stringsOf xs = concat (map (\<lambda>x. case x of JStr s \<Rightarrow> [s] | _ \<Rightarrow> []) xs)"

definition objectEntries :: "json \<Rightarrow> (jsstring \<times> json) list" where
  \<comment> \<open>\<^verbatim>\<open>Object.entries\<close> of an object or an array (whose keys are its indices)\<close>
  "objectEntries v =
     (case v of
        JObj kvs \<Rightarrow> kvs
      | JArr xs \<Rightarrow> zip (map decDigits [0..<length xs]) xs
      | _ \<Rightarrow> [])"

definition normalizeUser :: "json \<Rightarrow> userState" where
  \<comment> \<open>the body of the loop of \<^verbatim>\<open>normalizeStateShape\<close>\<close>
  "normalizeUser raw =
     (let u = (if isObject (Some raw) then raw else JObj []) in
      \<lparr>groups = (case getField u (ascii ''groups'') of
                   Some (JArr xs) \<Rightarrow> Some (stringsOf xs)
                 | _ \<Rightarrow> None),
       pendingStep =
         (if getField u (ascii ''pendingStep'') = Some (JStr (ascii ''groups'')) then Some Groups
          else if getField u (ascii ''pendingStep'') = Some (JStr (ascii ''groups_add''))
            then Some GroupsAdd
          else if getField u (ascii ''pendingStep'') = Some (JStr (ascii ''groups_remove''))
            then Some GroupsRemove
          else None),
       watching = toBoolean (getField u (ascii ''watching'')),
       lastLoeCheckedAt = stringOrUndefined (getField u (ascii ''lastLoeCheckedAt'')),
       lastLoeNotifiedAt = stringOrUndefined (getField u (ascii ''lastLoeNotifiedAt'')),
       lastLoeWatchedText = stringOrUndefined (getField u (ascii ''lastLoeWatchedText'')),
       lastLoeError = stringOrUndefined (getField u (ascii ''lastLoeError'')),
       lastLoeTomorrowCheckedAt =
         stringOrUndefined (getField u (ascii ''lastLoeTomorrowCheckedAt'')),
       lastLoeTomorrowNotifiedAt =
         stringOrUndefined (getField u (ascii ''lastLoeTomorrowNotifiedAt'')),
       lastLoeTomorrowWatchedText =
         stringOrUndefined (getField u (ascii ''lastLoeTomorrowWatchedText'')),
       lastLoeTomorrowStatus =
         (if getField u (ascii ''lastLoeTomorrowStatus'') = Some (JStr (ascii ''missing''))
            then Some Missing
          else if getField u (ascii ''lastLoeTomorrowStatus'') = Some (JStr (ascii ''present''))
            then Some Present
          else None),
       lastLoeTomorrowError = stringOrUndefined (getField u (ascii ''lastLoeTomorrowError''))\<rparr>)"

definition assignUser :: "(jsstring \<rightharpoonup> userState) \<Rightarrow> jsstring \<times> json \<Rightarrow> (jsstring \<rightharpoonup> userState)" where
  \<comment> \<open>\<^verbatim>\<open>users[chatId] = {...}\<close> on a plain object: the key \<^verbatim>\<open>__proto__\<close> sets the
      prototype and adds no member\<close>
  "assignUser m entry =
     (if fst entry = ascii ''__proto__'' then m else m(fst entry \<mapsto> normalizeUser (snd entry)))"

definition normalizeStateShape :: "json \<Rightarrow> botState" where
  "normalizeStateShape input =
     (let rawUsers = (if isObject (getField input (ascii ''users''))
                      then the (getField input (ascii ''users'')) else JObj [])
      in \<lparr>users = foldl assignUser Map.empty (objectEntries rawUsers)\<rparr>)"

datatype fileRead = ReadFails exn | FileText jsstring

definition readAndParse :: "(jsstring \<Rightarrow> exn + json) \<Rightarrow> fileRead \<Rightarrow> exn + botState" where
  \<comment> \<open>the \<^verbatim>\<open>try\<close> block of \<^verbatim>\<open>readStateFromDisk\<close>. \<open>parse\<close> is \<^verbatim>\<open>JSON.parse\<close>, which
      throws (\<open>Inl\<close>) on text that is not JSON.\<close>
  "readAndParse parse file =
     (case file of
        ReadFails err \<Rightarrow> Inl err
      | FileText raw \<Rightarrow>
          (case parse raw of
             Inl err \<Rightarrow> Inl err
           | Inr parsed \<Rightarrow>
               if isObject (Some parsed) \<and> getField parsed (ascii ''users'') \<noteq> None
                  \<and> isObject (getField parsed (ascii ''users''))
               then Inr (normalizeStateShape parsed)
               else Inr emptyState))"

definition readStateFromDisk :: "(jsstring \<Rightarrow> exn + json) \<Rightarrow> fileRead \<Rightarrow> exn + botState" where
  \<comment> \<open>the result is what the promise settles to: \<open>Inl\<close> would be a rejection\<close>
  "readStateFromDisk parse file =
     (case readAndParse parse file of
        Inr st \<Rightarrow> Inr st
      | Inl err \<Rightarrow>
          if code err = Some (ascii ''ENOENT'') then Inr emptyState else Inr emptyState)"

section \<open>Schedule lines\<close>

definition GRUPA :: "(nat \<times> nat) list" where
  \<comment> \<open>the five letters of the label in the regular expressions, each as its capital and its
      small form: under the flag \<^verbatim>\<open>i\<close> a letter of the pattern matches exactly these two\<close>
  "GRUPA = [(1043, 1075), (1056, 1088), (1059, 1091), (1055, 1087), (1040, 1072)]"

fun matchLabel :: "(nat \<times> nat) list \<Rightarrow> jsstring \<Rightarrow> jsstring option" where
  \<comment> \<open>the letters matched at the start of the text: what follows them\<close>
  "matchLabel [] s = Some s"
| "matchLabel (p # ps) [] = None"
| "matchLabel (p # ps) (c # cs) = (if c = fst p \<or> c = snd p then matchLabel ps cs else None)"

definition isGroupLine :: "jsstring \<Rightarrow> bool" where
  \<comment> \<open>the test of \<^verbatim>\<open>extractGroupLinesOnly\<close>: label, \<^verbatim>\<open>\s+\d+[.,]\d+\.\<close>, anchored at the start\<close>
  "isGroupLine l =
     (case matchLabel GRUPA l of
        None \<Rightarrow> False
      | Some r \<Rightarrow>
          takeWhile isWhiteSpace r \<noteq> [] \<and>
          (case matchTokenAt (dropWhile isWhiteSpace r) of
             None \<Rightarrow> False
           | Some (m1, m2, rest) \<Rightarrow> (case rest of [] \<Rightarrow> False | c # _ \<Rightarrow> c = 46)))"

definition extractGroupLinesOnly :: "jsstring \<Rightarrow> jsstring" where
  "extractGroupLinesOnly text =
     trim (joinNL (filter isGroupLine (splitNL (normalizeMultilineText text))))"

definition matchDottedAt :: "jsstring \<Rightarrow> (jsstring \<times> jsstring) option" where
  \<comment> \<open>\<^verbatim>\<open>(\d+\.\d+)\<close> matched at the start of the text: the capture and what follows it\<close>
  "matchDottedAt s =
     (let d1 = takeWhile isDigit s; r = dropWhile isDigit s in
      if d1 = [] then None
      else (case r of
              [] \<Rightarrow> None
            | c # r' \<Rightarrow>
                if c = 46 \<and> takeWhile isDigit r' \<noteq> []
                then Some (d1 @ [46] @ takeWhile isDigit r', dropWhile isDigit r')
                else None))"

definition matchScheduleAt :: "jsstring \<Rightarrow> jsstring option" where
  \<comment> \<open>label, \<^verbatim>\<open>\s+(\d+\.\d+)\.\<close> matched at the start of the text: the capture\<close>
  "matchScheduleAt s =
     (case matchLabel GRUPA s of
        None \<Rightarrow> None
      | Some r \<Rightarrow>
          if takeWhile isWhiteSpace r = [] then None
          else (case matchDottedAt (dropWhile isWhiteSpace r) of
                  None \<Rightarrow> None
                | Some (m1, rest) \<Rightarrow> (case rest of [] \<Rightarrow> None | c # _ \<Rightarrow> if c = 46 then Some m1 else None)))"

fun findSchedule :: "jsstring \<Rightarrow> jsstring option" where
  \<comment> \<open>\<^verbatim>\<open>line.match(...)\<close> without anchor: the capture of the leftmost match\<close>
  "findSchedule [] = None"
| "findSchedule (c # cs) =
     (case matchScheduleAt (c # cs) of Some m1 \<Rightarrow> Some m1 | None \<Rightarrow> findSchedule cs)"

definition recordLine :: "(nat \<Rightarrow> jsstring) \<Rightarrow> (jsstring \<rightharpoonup> jsstring) \<Rightarrow> jsstring \<Rightarrow> (jsstring \<rightharpoonup> jsstring)" where
  \<comment> \<open>one turn of the loop of \<^verbatim>\<open>parseGroupSchedulesFromText\<close>\<close>
  "recordLine big m line =
     (case findSchedule line of
        None \<Rightarrow> m
      | Some m1 \<Rightarrow>
          (case normalizeGroupId big m1 of
             None \<Rightarrow> m
           | Some g \<Rightarrow> if g = [] then m else m(g \<mapsto> line)))"

definition parseGroupSchedulesFromText :: "(nat \<Rightarrow> jsstring) \<Rightarrow> jsstring \<Rightarrow> (jsstring \<rightharpoonup> jsstring)" where
  "parseGroupSchedulesFromText big text =
     foldl (recordLine big) Map.empty (splitNL (normalizeMultilineText text))"

definition headerLinesOf :: "jsstring \<Rightarrow> jsstring list" where
  \<comment> \<open>\<^verbatim>\<open>normalizeMultilineText(t).split('\n').slice(0, 2).filter((l) => l.length > 0)\<close>\<close>
  "headerLinesOf t = filter (\<lambda>l. length l > 0) (take 2 (splitNL (normalizeMultilineText t)))"

section \<open>Message texts\<close>

definition MSG_NO_GROUPS :: jsstring where
  \<comment> \<open>the message of the branch without subgroups (no groups set; use /groups ...)\<close>
  "MSG_NO_GROUPS =
     [1053, 1077, 32, 1079, 1072, 1076, 1072, 1085, 1086, 32, 1075, 1088, 1091, 1087, 1080,
      46, 32, 1042, 1080, 1082, 1086, 1088, 1080, 1089, 1090, 1072, 1081, 1090, 1077, 32, 47,
      103, 114, 111, 117, 112, 115, 32, 1090, 1072, 32, 1074, 1074, 1077, 1076, 1110, 1090,
      1100, 44, 32, 1085, 1072, 1087, 1088, 1080, 1082, 1083, 1072, 1076, 58, 32, 49, 46, 49,
      44, 32, 51, 46, 50]"

definition MSG_NO_TODAY :: jsstring where
  \<comment> \<open>the message of the error thrown when the menu has no item named Today\<close>
  "MSG_NO_TODAY =
     [76, 79, 69, 32, 65, 80, 73, 32, 1085, 1077, 32, 1087, 1086, 1074, 1077, 1088, 1085,
      1091, 1074, 32, 1077, 1083, 1077, 1084, 1077, 1085, 1090, 32, 1084, 1077, 1085, 1102,
      32, 1079, 32, 110, 97, 109, 101, 61, 34, 84, 111, 100, 97, 121, 34]"

definition PLACEHOLDER_PREFIX :: jsstring where
  \<comment> \<open>the label and a space, which open a placeholder line\<close>
  "PLACEHOLDER_PREFIX =
     [1043, 1088, 1091, 1087, 1072, 32]"

definition PLACEHOLDER_TODAY :: jsstring where
  \<comment> \<open>a full stop and, in brackets, not found in the update\<close>
  "PLACEHOLDER_TODAY =
     [46, 32, 40, 1053, 1077, 32, 1079, 1085, 1072, 1081, 1076, 1077, 1085, 1086, 32, 1074,
      32, 1086, 1085, 1086, 1074, 1083, 1077, 1085, 1085, 1110, 41]"

definition PLACEHOLDER_TOMORROW :: jsstring where
  \<comment> \<open>a full stop and, in brackets, not found in the schedule for tomorrow\<close>
  "PLACEHOLDER_TOMORROW =
     [46, 32, 40, 1053, 1077, 32, 1079, 1085, 1072, 1081, 1076, 1077, 1085, 1086, 32, 1074,
      32, 1075, 1088, 1072, 1092, 1110, 1082, 1091, 32, 1085, 1072, 32, 1079, 1072, 1074,
      1090, 1088, 1072, 41]"

definition HEAD_CHECKED :: jsstring where
  \<comment> \<open>headline of a forced check: fire sign, update checked\<close>
  "HEAD_CHECKED =
     [55357, 56613, 32, 1054, 1085, 1086, 1074, 1083, 1077, 1085, 1085, 1103, 32, 1087, 1077,
      1088, 1077, 1074, 1110, 1088, 1077, 1085, 1086, 33]"

definition HEAD_ROLLOVER :: jsstring where
  \<comment> \<open>headline of the re-announcement on a new day: fire sign, outage schedule for today\<close>
  "HEAD_ROLLOVER =
     [55357, 56613, 32, 1043, 1088, 1072, 1092, 1110, 1082, 32, 1074, 1110, 1076, 1082, 1083,
      1102, 1095, 1077, 1085, 1100, 32, 1085, 1072, 32, 1089, 1100, 1086, 1075, 1086, 1076,
      1085, 1110, 33]"

definition HEAD_CHANGED :: jsstring where
  \<comment> \<open>headline of a change: fire sign, the outage schedule for today has changed\<close>
  "HEAD_CHANGED =
     [55357, 56613, 32, 1043, 1088, 1072, 1092, 1110, 1082, 32, 1074, 1110, 1076, 1082, 1083,
      1102, 1095, 1077, 1085, 1100, 32, 1085, 1072, 32, 1089, 1100, 1086, 1075, 1086, 1076,
      1085, 1110, 32, 1079, 1084, 1110, 1085, 1080, 1074, 1089, 1103, 33]"

definition HEAD_TOMORROW_APPEARED :: jsstring where
  \<comment> \<open>calendar sign, the outage schedule for tomorrow has appeared\<close>
  "HEAD_TOMORROW_APPEARED =
     [55357, 56787, 65039, 32, 1047, 700, 1103, 1074, 1080, 1074, 1089, 1103, 32, 1075, 1088,
      1072, 1092, 1110, 1082, 32, 1074, 1110, 1076, 1082, 1083, 1102, 1095, 1077, 1085, 1100,
      32, 1085, 1072, 32, 1079, 1072, 1074, 1090, 1088, 1072, 33]"

definition HEAD_TOMORROW_CHANGED :: jsstring where
  \<comment> \<open>calendar sign, the outage schedule for tomorrow has changed\<close>
  "HEAD_TOMORROW_CHANGED =
     [55357, 56787, 65039, 32, 1043, 1088, 1072, 1092, 1110, 1082, 32, 1074, 1110, 1076, 1082,
      1083, 1102, 1095, 1077, 1085, 1100, 32, 1085, 1072, 32, 1079, 1072, 1074, 1090, 1088,
      1072, 32, 1079, 1084, 1110, 1085, 1080, 1074, 1089, 1103, 33]"

definition FALLBACK_TEXT :: jsstring where
  \<comment> \<open>in brackets, could not read the text\<close>
  "FALLBACK_TEXT =
     [40, 1053, 1077, 32, 1074, 1076, 1072, 1083, 1086, 1089, 1103, 32, 1087, 1088, 1086,
      1095, 1080, 1090, 1072, 1090, 1080, 32, 1090, 1077, 1082, 1089, 1090, 41]"

definition LINK_BASELINE :: jsstring where
  \<comment> \<open>a newline and outage schedule: \<close>
  "LINK_BASELINE =
     [10, 1043, 1088, 1072, 1092, 1110, 1082, 32, 1074, 1110, 1076, 1082, 1083, 1102, 1095,
      1077, 1085, 1100, 58, 32]"

definition LINK_TODAY :: jsstring where
  \<comment> \<open>a newline and outage schedule for today: \<close>
  "LINK_TODAY =
     [10, 1043, 1088, 1072, 1092, 1110, 1082, 32, 1074, 1110, 1076, 1082, 1083, 1102, 1095,
      1077, 1085, 1100, 32, 1085, 1072, 32, 1089, 1100, 1086, 1075, 1086, 1076, 1085, 1110,
      58, 32]"

definition LINK_TOMORROW :: jsstring where
  \<comment> \<open>a newline and schedule (tomorrow): \<close>
  "LINK_TOMORROW =
     [10, 1043, 1088, 1072, 1092, 1110, 1082, 32, 40, 1079, 1072, 1074, 1090, 1088, 1072, 41,
      58, 32]"

definition MSG_UNKNOWN :: jsstring where
  \<comment> \<open>unknown error while checking the schedule\<close>
  "MSG_UNKNOWN =
     [1053, 1077, 1074, 1110, 1076, 1086, 1084, 1072, 32, 1087, 1086, 1084, 1080, 1083, 1082,
      1072, 32, 1087, 1110, 1076, 32, 1095, 1072, 1089, 32, 1087, 1077, 1088, 1077, 1074,
      1110, 1088, 1082, 1080, 32, 1075, 1088, 1072, 1092, 1110, 1082, 1072]"

definition ERROR_PREFIX :: jsstring where
  \<comment> \<open>cross mark, error: \<close>
  "ERROR_PREFIX =
     [10060, 32, 1055, 1086, 1084, 1080, 1083, 1082, 1072, 58, 32]"

definition placeholderToday :: "jsstring \<Rightarrow> jsstring" where
  "placeholderToday g = PLACEHOLDER_PREFIX @ g @ PLACEHOLDER_TODAY"

definition placeholderTomorrow :: "jsstring \<Rightarrow> jsstring" where
  "placeholderTomorrow g = PLACEHOLDER_PREFIX @ g @ PLACEHOLDER_TOMORROW"

definition selectLines :: "(jsstring \<rightharpoonup> jsstring) \<Rightarrow> (jsstring \<Rightarrow> jsstring) \<Rightarrow> jsstring list \<Rightarrow> jsstring list" where
  \<comment> \<open>\<^verbatim>\<open>user.groups.map((g) => groupMap[g] ?? placeholder)\<close>\<close>
  "selectLines groupMap placeholder gs =
     map (\<lambda>g. case groupMap g of Some line \<Rightarrow> line | None \<Rightarrow> placeholder g) gs"

definition watchedTextOf :: "jsstring list \<Rightarrow> jsstring list \<Rightarrow> jsstring" where
  \<comment> \<open>\<^verbatim>\<open>[...headerLines, '', ...selectedLines].join('\n').trim()\<close>\<close>
  "watchedTextOf headerLines selectedLines = trim (joinNL (headerLines @ [[]] @ selectedLines))"

definition watchedGroupsTextOf :: "jsstring list \<Rightarrow> jsstring" where
  \<comment> \<open>\<^verbatim>\<open>selectedLines.join('\n').trim()\<close>\<close>
  "watchedGroupsTextOf selectedLines = trim (joinNL selectedLines)"

definition previousGroupsText :: "jsstring option \<Rightarrow> jsstring option" where
  \<comment> \<open>\<^verbatim>\<open>stored ? extractGroupLinesOnly(stored) : undefined\<close>\<close>
  "previousGroupsText stored =
     (case stored of
        None \<Rightarrow> None
      | Some t \<Rightarrow> if t = [] then None else Some (extractGroupLinesOnly t))"

definition notice :: "jsstring \<Rightarrow> jsstring \<Rightarrow> jsstring \<Rightarrow> jsstring \<Rightarrow> jsstring" where
  \<comment> \<open>the five parts of a notification, \<^verbatim>\<open>.filter(Boolean).join('\n')\<close>\<close>
  "notice headline text linkLabel url =
     joinNL (filter (\<lambda>part. part \<noteq> [])
       [headline, [32], if text \<noteq> [] then text else FALLBACK_TEXT, [],
        if url \<noteq> [] then linkLabel @ url else []])"

definition firstLine :: "jsstring \<Rightarrow> jsstring" where
  \<comment> \<open>the headline of a message: its text up to the first newline\<close>
  "firstLine m = takeWhile (\<lambda>c. c \<noteq> 10) m"

section \<open>The environment of a check\<close>

text \<open>
  What a check reads from outside is an input of the model: the answer of the upstream
  source, whether each write to the disk and each send succeeds, and the clock. Every place
  of \<^verbatim>\<open>checkOneChat\<close> that writes, sends or reads the clock runs at most once in a call, so
  the environment answers per place.
\<close>

record menuEntry =
  itemText :: jsstring
  imageUrl :: jsstring

datatype fetched =
  FetchFailed exn
| Fetched "menuEntry option" "menuEntry option"

datatype ioSite =
  WriteNoGroups | SendNoGroups
| WriteBaseline | WriteBaselineForced | SendBaselineForced
| WriteToday | SendToday
| WriteTomorrowMissing | WriteTomorrowNoData
| WriteTomorrowAppeared | SendTomorrowAppeared
| WriteTomorrowChanged | SendTomorrowChanged
| WriteFinal | WriteError | SendError

datatype clockSite =
  AtNoGroups | AtChecked | AtRollover | AtBaselineNotified | AtTodayNotified
| AtTomorrowChecked | AtTomorrowAppeared | AtTomorrowChanged | AtError

record calendarDate =
  year :: int
  month :: nat
  day :: nat

record instant =
  iso :: jsstring
  localDate :: calendarDate

record env =
  envFetch :: fetched
  envIoFailure :: "ioSite \<Rightarrow> exn option"
  envNow :: "clockSite \<Rightarrow> instant"
  envParseDate :: "jsstring \<Rightarrow> calendarDate option"
  envHeapTop :: nat
  envBig :: "nat \<Rightarrow> jsstring"

text \<open>
  \<open>envFetch\<close> is what \<^verbatim>\<open>fetchLoePhotoGraficMenuItems\<close> settles to (the items named Today and
  Tomorrow, when present). \<open>envNow\<close> is \<^verbatim>\<open>new Date()\<close> at a place: its ISO string and its
  date in the local time zone. \<open>envParseDate s\<close> is the local date of \<^verbatim>\<open>new Date(s)\<close>, or
  \<open>None\<close> for an invalid date, whose \<^verbatim>\<open>getDate()\<close> is NaN. \<open>envHeapTop\<close> is the reference
  the next new array gets.
\<close>

datatype event = Persisted userState | Sent jsstring jsstring

record world =
  usr :: userState
  events :: "event list"

datatype 'a jsarray = JsArray (ref: nat) (elems: "'a list")

definition newArray :: "nat \<Rightarrow> 'a list \<Rightarrow> 'a jsarray \<times> nat" where
  \<comment> \<open>an array method returns a new object: the next free reference\<close>
  "newArray r xs = (JsArray r xs, Suc r)"

definition strictlyUnequal :: "'a jsarray \<Rightarrow> 'a jsarray \<Rightarrow> bool" where
  \<comment> \<open>\<^verbatim>\<open>a !== b\<close> on two arrays compares the objects, not their elements\<close>
  "strictlyUnequal a b = (ref a \<noteq> ref b)"

definition setUser :: "(userState \<Rightarrow> userState) \<Rightarrow> world \<Rightarrow> world" where
  "setUser f w = w\<lparr>usr := f (usr w)\<rparr>"

definition writeStateToDisk :: "env \<Rightarrow> ioSite \<Rightarrow> world \<Rightarrow> exn option \<times> world" where
  \<comment> \<open>the record of this subscriber as the store file then holds it, or the exception\<close>
  "writeStateToDisk e site w =
     (case envIoFailure e site of
        Some err \<Rightarrow> (Some err, w)
      | None \<Rightarrow> (None, w\<lparr>events := events w @ [Persisted (usr w)]\<rparr>))"

definition sendMessage :: "env \<Rightarrow> ioSite \<Rightarrow> jsstring \<Rightarrow> jsstring \<Rightarrow> world \<Rightarrow> exn option \<times> world" where
  "sendMessage e site chatId text w =
     (case envIoFailure e site of
        Some err \<Rightarrow> (Some err, w)
      | None \<Rightarrow> (None, w\<lparr>events := events w @ [Sent chatId text]\<rparr>))"

definition andThen :: "exn option \<times> world \<Rightarrow> (world \<Rightarrow> exn option \<times> world) \<Rightarrow> exn option \<times> world" where
  \<comment> \<open>the next statement runs unless the one before threw\<close>
  "andThen r k = (case fst r of Some err \<Rightarrow> r | None \<Rightarrow> k (snd r))"

definition sentMessages :: "world \<Rightarrow> jsstring list" where
  \<comment> \<open>the texts sent, oldest first\<close>
  "sentMessages w = concat (map (\<lambda>ev. case ev of Sent chatId text \<Rightarrow> [text] | Persisted u \<Rightarrow> []) (events w))"

definition persistedRecords :: "world \<Rightarrow> userState list" where
  \<comment> \<open>the records written to the store, oldest first\<close>
  "persistedRecords w = concat (map (\<lambda>ev. case ev of Persisted u \<Rightarrow> [u] | Sent chatId text \<Rightarrow> []) (events w))"

section \<open>The check of one subscriber\<close>

definition hasAnyData :: "(jsstring \<rightharpoonup> jsstring) \<Rightarrow> jsstring list \<Rightarrow> bool" where
  \<comment> \<open>\<^verbatim>\<open>user.groups.some((g) => Boolean(tomorrowGroupMap[g]))\<close>\<close>
  "hasAnyData groupMap gs =
     list_ex (\<lambda>g. case groupMap g of Some line \<Rightarrow> line \<noteq> [] | None \<Rightarrow> False) gs"

definition isNotifiedYesterday :: "env \<Rightarrow> userState \<Rightarrow> bool" where
  \<comment> \<open>\<^verbatim>\<open>getDate()\<close> is the day of the month; NaN differs from every number\<close>
  "isNotifiedYesterday e u =
     (case lastLoeNotifiedAt u of
        None \<Rightarrow> False
      | Some t \<Rightarrow>
          if t = [] then False
          else map_option day (envParseDate e t) \<noteq> Some (day (localDate (envNow e AtRollover))))"

definition todaySection :: "env \<Rightarrow> jsstring \<Rightarrow> bool \<Rightarrow> menuEntry \<Rightarrow> world \<Rightarrow> exn option \<times> world" where
  "todaySection e chatId forceCheck today w =
     (let groupMap = parseGroupSchedulesFromText (envBig e) (itemText today);
          selectedLines = selectLines groupMap placeholderToday (currentGroups (usr w));
          headerLines = headerLinesOf (itemText today);
          watchedText = watchedTextOf headerLines selectedLines;
          watchedGroupsText = watchedGroupsTextOf selectedLines;
          prev = previousGroupsText (lastLoeWatchedText (usr w));
          w1 = setUser (\<lambda>u. u\<lparr>lastLoeCheckedAt := Some (iso (envNow e AtChecked)),
                                lastLoeError := None\<rparr>) w;
          notifiedYesterday = isNotifiedYesterday e (usr w1)
      in if prev = None \<or> prev = Some [] then
           andThen (writeStateToDisk e WriteBaseline
                      (setUser (\<lambda>u. u\<lparr>lastLoeWatchedText := Some watchedText\<rparr>) w1))
             (\<lambda>w2. if forceCheck then
                      andThen (writeStateToDisk e WriteBaselineForced
                                 (setUser (\<lambda>u. u\<lparr>lastLoeNotifiedAt :=
                                                     Some (iso (envNow e AtBaselineNotified))\<rparr>) w2))
                        (sendMessage e SendBaselineForced chatId
                           (notice HEAD_CHECKED watchedText LINK_BASELINE (imageUrl today)))
                    else (None, w2))
         else if prev \<noteq> Some watchedGroupsText \<or> notifiedYesterday \<or> forceCheck then
           andThen (writeStateToDisk e WriteToday
                      (setUser (\<lambda>u. u\<lparr>lastLoeWatchedText := Some watchedText,
                                        lastLoeNotifiedAt := Some (iso (envNow e AtTodayNotified))\<rparr>) w1))
             (sendMessage e SendToday chatId
                (notice (if forceCheck then HEAD_CHECKED
                         else if notifiedYesterday then HEAD_ROLLOVER else HEAD_CHANGED)
                   watchedText LINK_TODAY (imageUrl today)))
         else (None, w1))"

definition tomorrowSection :: "env \<Rightarrow> jsstring \<Rightarrow> menuEntry option \<Rightarrow> world \<Rightarrow> exn option \<times> world" where
  "tomorrowSection e chatId tomorrow w =
     (let w1 = setUser (\<lambda>u. u\<lparr>lastLoeTomorrowCheckedAt := Some (iso (envNow e AtTomorrowChecked)),
                                lastLoeTomorrowError := None\<rparr>) w
      in case tomorrow of
           None \<Rightarrow>
             writeStateToDisk e WriteTomorrowMissing
               (setUser (\<lambda>u. u\<lparr>lastLoeTomorrowStatus := Some Missing\<rparr>) w1)
         | Some tm \<Rightarrow>
             (let tomorrowGroupMap = parseGroupSchedulesFromText (envBig e) (itemText tm);
                  tomorrowSelectedLines =
                    selectLines tomorrowGroupMap placeholderTomorrow (currentGroups (usr w1));
                  hasAnyTomorrowData = hasAnyData tomorrowGroupMap (currentGroups (usr w1));
                  tomorrowHeaderLines = headerLinesOf (itemText tm);
                  (tomorrowHeaderLinesPrev, top1) =
                    newArray (envHeapTop e)
                      (headerLinesOf (case lastLoeTomorrowWatchedText (usr w1) of
                                        Some t \<Rightarrow> t | None \<Rightarrow> []));
                  (tomorrowHeaderLinesCurrent, top2) = newArray top1 (headerLinesOf (itemText tm));
                  tomorrowWatchedText = watchedTextOf tomorrowHeaderLines tomorrowSelectedLines;
                  tomorrowWatchedGroupsText = watchedGroupsTextOf tomorrowSelectedLines;
                  tomorrowPrevGroupsOnly = previousGroupsText (lastLoeTomorrowWatchedText (usr w1));
                  appeared = (lastLoeTomorrowStatus (usr w1) \<noteq> Some Present);
                  w2 = setUser (\<lambda>u. u\<lparr>lastLoeTomorrowStatus := Some Present\<rparr>) w1
              in if \<not> hasAnyTomorrowData then
                   writeStateToDisk e WriteTomorrowNoData
                     (setUser (\<lambda>u. u\<lparr>lastLoeTomorrowWatchedText := Some tomorrowWatchedText\<rparr>) w2)
                 else if appeared then
                   andThen (writeStateToDisk e WriteTomorrowAppeared
                              (setUser (\<lambda>u. u\<lparr>lastLoeTomorrowWatchedText := Some tomorrowWatchedText,
                                                lastLoeTomorrowNotifiedAt :=
                                                  Some (iso (envNow e AtTomorrowAppeared))\<rparr>) w2))
                     (sendMessage e SendTomorrowAppeared chatId
                        (notice HEAD_TOMORROW_APPEARED tomorrowWatchedText LINK_TOMORROW (imageUrl tm)))
                 else if tomorrowPrevGroupsOnly \<noteq> Some tomorrowWatchedGroupsText
                         \<and> strictlyUnequal tomorrowHeaderLinesPrev tomorrowHeaderLinesCurrent then
                   andThen (writeStateToDisk e WriteTomorrowChanged
                              (setUser (\<lambda>u. u\<lparr>lastLoeTomorrowWatchedText := Some tomorrowWatchedText,
                                                lastLoeTomorrowNotifiedAt :=
                                                  Some (iso (envNow e AtTomorrowChanged))\<rparr>) w2))
                     (sendMessage e SendTomorrowChanged chatId
                        (notice HEAD_TOMORROW_CHANGED tomorrowWatchedText LINK_TOMORROW (imageUrl tm)))
                 else writeStateToDisk e WriteFinal w2))"

definition tryBlock :: "env \<Rightarrow> jsstring \<Rightarrow> bool \<Rightarrow> world \<Rightarrow> exn option \<times> world" where
  \<comment> \<open>the \<^verbatim>\<open>try\<close> block of \<^verbatim>\<open>checkOneChat\<close>\<close>
  "tryBlock e chatId forceCheck w =
     (case envFetch e of
        FetchFailed err \<Rightarrow> (Some err, w)
      | Fetched today tomorrow \<Rightarrow>
          (case today of
             None \<Rightarrow> (Some (Exn None (Some MSG_NO_TODAY)), w)
           | Some td \<Rightarrow>
               andThen (todaySection e chatId forceCheck td w)
                 (tomorrowSection e chatId tomorrow)))"

definition catchBlock :: "env \<Rightarrow> jsstring \<Rightarrow> bool \<Rightarrow> exn \<Rightarrow> world \<Rightarrow> exn option \<times> world" where
  "catchBlock e chatId forceCheck err w =
     (let text = (case message err of
                    None \<Rightarrow> MSG_UNKNOWN
                  | Some m \<Rightarrow> if m = [] then MSG_UNKNOWN else m);
          w1 = setUser (\<lambda>u. u\<lparr>lastLoeCheckedAt := Some (iso (envNow e AtError)),
                                lastLoeError := Some text\<rparr>) w
      in andThen (writeStateToDisk e WriteError w1)
           (\<lambda>w2. if forceCheck then sendMessage e SendError chatId (ERROR_PREFIX @ text) w2
                  else (None, w2)))"

definition checkOneChat :: "env \<Rightarrow> jsstring \<Rightarrow> bool \<Rightarrow> world \<Rightarrow> exn option \<times> world" where
  \<comment> \<open>the first component is the exception the call ends with, if any\<close>
  "checkOneChat e chatId forceCheck w =
     (if \<not> watching (usr w) \<and> \<not> forceCheck then (None, w)
      else if groups (usr w) = None \<or> length (currentGroups (usr w)) = 0 then
        (let w1 = setUser (\<lambda>u. u\<lparr>lastLoeError := Some MSG_NO_GROUPS,
                                  lastLoeCheckedAt := Some (iso (envNow e AtNoGroups))\<rparr>) w
         in andThen (writeStateToDisk e WriteNoGroups w1)
              (\<lambda>w2. if forceCheck then sendMessage e SendNoGroups chatId MSG_NO_GROUPS w2
                     else (None, w2)))
      else (case tryBlock e chatId forceCheck w of
              (None, w') \<Rightarrow> (None, w')
            | (Some err, w') \<Rightarrow> catchBlock e chatId forceCheck err w'))"

section \<open>Notions of the specification\<close>

definition isPlaceholderLine :: "jsstring \<Rightarrow> bool" where
  \<comment> \<open>a line rendered for a subgroup that the update does not mention\<close>
  "isPlaceholderLine l =
     list_ex (\<lambda>g. l = placeholderToday g \<or> l = placeholderTomorrow g) POSSIBLE_GROUPS"

definition withoutPlaceholders :: "jsstring list \<Rightarrow> jsstring list" where
  \<comment> \<open>the rendered lines that come from the schedule\<close>
  "withoutPlaceholders ls = filter (\<lambda>l. \<not> isPlaceholderLine l) ls"


definition defaultUser :: userState where
  \<comment> \<open>every optional field \<^verbatim>\<open>undefined\<close>, \<^verbatim>\<open>watching\<close> false\<close>
  "defaultUser =
     \<lparr>groups = None, pendingStep = None, watching = False, lastLoeCheckedAt = None,
      lastLoeNotifiedAt = None, lastLoeWatchedText = None, lastLoeError = None,
      lastLoeTomorrowCheckedAt = None, lastLoeTomorrowNotifiedAt = None,
      lastLoeTomorrowWatchedText = None, lastLoeTomorrowStatus = None,
      lastLoeTomorrowError = None\<rparr>"

definition parsesTo :: "json \<Rightarrow> jsstring \<Rightarrow> exn + json" where
  \<comment> \<open>a parser for examples: the file holds the text of the given value\<close>
  "parsesTo j raw = Inr j"


definition loadedGroups :: "exn + botState \<Rightarrow> jsstring \<Rightarrow> jsstring list option" where
  \<comment> \<open>the subgroups of a subscriber in a loaded store\<close>
  "loadedGroups r chatId =
     (case r of
        Inl err \<Rightarrow> None
      | Inr st \<Rightarrow> (case users st chatId of None \<Rightarrow> None | Some u \<Rightarrow> groups u))"

definition scanStopsAfter :: "jsstring \<Rightarrow> bool" where
  \<comment> \<open>text after which a token can start: it ends neither with a digit nor with a digit and a
      separator, so that no match of the pattern begun in it takes a digit of what follows\<close>
  "scanStopsAfter pre =
     (pre = [] \<or> (\<not> isDigit (last pre)
        \<and> \<not> (isSeparator (last pre) \<and> butlast pre \<noteq> [] \<and> isDigit (last (butlast pre)))))"



definition storeWithBadGroups :: json where
  \<comment> \<open>\<^verbatim>\<open>{"users": {"42": {"groups": ["9.9", "1.1", "1.1"]}}}\<close>\<close>
  "storeWithBadGroups =
     JObj [(ascii ''users'',
            JObj [(ascii ''42'',
                   JObj [(ascii ''groups'',
                          JArr [JStr (ascii ''9.9''), JStr (ascii ''1.1''), JStr (ascii ''1.1'')])])])]"




section \<open>Runs and kinds of messages\<close>

definition startOf :: "userState \<Rightarrow> world" where
  \<comment> \<open>a subscriber before a check, nothing written or sent yet\<close>
  "startOf u = \<lparr>usr = u, events = []\<rparr>"

definition ioSucceeds :: "env \<Rightarrow> bool" where
  \<comment> \<open>no write to the disk and no send throws\<close>
  "ioSucceeds e = (\<forall>site. envIoFailure e site = None)"

definition isAppearedNotice :: "jsstring \<Rightarrow> bool" where
  "isAppearedNotice m = (firstLine m = HEAD_TOMORROW_APPEARED)"

definition isTomorrowNotice :: "jsstring \<Rightarrow> bool" where
  "isTomorrowNotice m = (firstLine m = HEAD_TOMORROW_APPEARED \<or> firstLine m = HEAD_TOMORROW_CHANGED)"

definition isTodayNotice :: "jsstring \<Rightarrow> bool" where
  "isTodayNotice m =
     (firstLine m = HEAD_CHECKED \<or> firstLine m = HEAD_ROLLOVER \<or> firstLine m = HEAD_CHANGED)"

definition isErrorReport :: "jsstring \<Rightarrow> bool" where
  \<comment> \<open>the text sent from the \<^verbatim>\<open>catch\<close> block, or the one of the branch without subgroups\<close>
  "isErrorReport m = (take (length ERROR_PREFIX) m = ERROR_PREFIX \<or> m = MSG_NO_GROUPS)"

fun pollRun :: "jsstring \<Rightarrow> (env \<times> bool) list \<Rightarrow> world \<Rightarrow> world" where
  \<comment> \<open>successive checks of one subscriber, each with its environment and its
      \<^verbatim>\<open>forceCheck\<close>: the record in memory goes from one check to the next, whether or not
      the check before ended with an exception\<close>
  "pollRun chatId [] w = w"
| "pollRun chatId (p # ps) w = pollRun chatId ps (snd (checkOneChat (fst p) chatId (snd p) w))"

definition tomorrowNeverAbsent :: "(env \<times> bool) list \<Rightarrow> bool" where
  \<comment> \<open>no check of the run is answered with a menu in which tomorrow's schedule is absent\<close>
  "tomorrowNeverAbsent ps = list_all (\<lambda>p. case envFetch (fst p) of
                                            FetchFailed err \<Rightarrow> True
                                          | Fetched today tomorrow \<Rightarrow> tomorrow \<noteq> None) ps"

definition todayIsSilent :: "env \<Rightarrow> bool \<Rightarrow> menuEntry \<Rightarrow> userState \<Rightarrow> bool" where
  \<comment> \<open>no rule of the today section asks for a message: no \<^verbatim>\<open>forceCheck\<close>, and either no
      baseline is stored yet, or the stored lines are the current ones and the day of the
      last notification is the current one\<close>
  "todayIsSilent e forceCheck td u =
     (\<not> forceCheck
      \<and> (previousGroupsText (lastLoeWatchedText u) = None
         \<or> previousGroupsText (lastLoeWatchedText u) = Some []
         \<or> (previousGroupsText (lastLoeWatchedText u)
              = Some (watchedGroupsTextOf
                        (selectLines (parseGroupSchedulesFromText (envBig e) (itemText td))
                           placeholderToday (currentGroups u)))
            \<and> \<not> isNotifiedYesterday e u)))"

section \<open>Sample inputs\<close>

definition sampleNow :: instant where
  \<comment> \<open>2 November 2026, 09:00 UTC, in a process whose time zone is UTC\<close>
  "sampleNow = \<lparr>iso = ascii ''2026-11-02T09:00:00.000Z'',
                 localDate = \<lparr>year = 2026, month = 11, day = 2\<rparr>\<rparr>"

definition sampleParseDate :: "jsstring \<Rightarrow> calendarDate option" where
  "sampleParseDate s =
     (if s = ascii ''2026-10-02T09:00:00.000Z'' then Some \<lparr>year = 2026, month = 10, day = 2\<rparr>
      else if s = ascii ''2026-11-02T09:00:00.000Z'' then Some \<lparr>year = 2026, month = 11, day = 2\<rparr>
      else None)"

definition noFailure :: "ioSite \<Rightarrow> exn option" where
  "noFailure site = None"

definition sampleClock :: "clockSite \<Rightarrow> instant" where
  "sampleClock site = sampleNow"

definition sampleBig :: "nat \<Rightarrow> jsstring" where
  \<comment> \<open>no number of the samples is above \<open>2^53\<close>\<close>
  "sampleBig n = []"

definition sampleEnv :: "fetched \<Rightarrow> env" where
  "sampleEnv f =
     \<lparr>envFetch = f, envIoFailure = noFailure, envNow = sampleClock,
      envParseDate = sampleParseDate, envHeapTop = 0, envBig = sampleBig\<rparr>"

definition lineA :: jsstring where
  \<comment> \<open>the label, then \<^verbatim>\<open> 1.1. a\<close>\<close>
  "lineA = [1043, 1088, 1091, 1087, 1072, 32, 49, 46, 49, 46, 32, 97]"

definition lineB :: jsstring where
  \<comment> \<open>the label, then \<^verbatim>\<open> 1.1. b\<close>\<close>
  "lineB = [1043, 1088, 1091, 1087, 1072, 32, 49, 46, 49, 46, 32, 98]"

definition scheduleA :: menuEntry where
  \<comment> \<open>two header lines \<^verbatim>\<open>H\<close> and \<^verbatim>\<open>I\<close>, then \<open>lineA\<close>\<close>
  "scheduleA = \<lparr>itemText = [72, 10, 73, 10] @ lineA, imageUrl = []\<rparr>"

definition scheduleB :: menuEntry where
  \<comment> \<open>the same header lines, then \<open>lineB\<close>\<close>
  "scheduleB = \<lparr>itemText = [72, 10, 73, 10] @ lineB, imageUrl = []\<rparr>"

definition storedA :: jsstring where
  \<comment> \<open>the watched text stored from \<open>scheduleA\<close> for the subgroup 1.1\<close>
  "storedA = [72, 10, 73, 10, 10] @ lineA"

definition newSubscriber :: userState where
  \<comment> \<open>watching subgroup 1.1, never checked\<close>
  "newSubscriber = defaultUser\<lparr>groups := Some [ascii ''1.1''], watching := True\<rparr>"

definition settledSubscriber :: userState where
  \<comment> \<open>watching subgroup 1.1; both baselines stored from \<open>scheduleA\<close>; tomorrow seen;
      last notified on 2 October 2026\<close>
  "settledSubscriber =
     defaultUser\<lparr>groups := Some [ascii ''1.1''], watching := True,
                  lastLoeNotifiedAt := Some (ascii ''2026-10-02T09:00:00.000Z''),
                  lastLoeWatchedText := Some storedA,
                  lastLoeTomorrowWatchedText := Some storedA,
                  lastLoeTomorrowStatus := Some Present\<rparr>"

section \<open>The serialisation queue\<close>

text \<open>
  \<^verbatim>\<open>runStateOp\<close> is two calls of \<^verbatim>\<open>then\<close> and an assignment. What they do is fixed by the
  promise machinery of the language, which is modelled here as far as the function uses it:
  a promise is pending or settled; \<^verbatim>\<open>then\<close> registers a reaction on a pending promise and
  queues a job for a settled one; settling a promise queues a job for each of its
  reactions; a job calls the handler for the outcome and settles the derived promise with
  what the handler returns. The jobs run one at a time, in any order, between the calls of
  \<^verbatim>\<open>runStateOp\<close> and the ends of the units. A unit is an asynchronous function: called, it
  returns a promise of its own, which settles when the unit ends, with either outcome.

  Promises are named by the place that creates them: the initial \<^verbatim>\<open>Promise.resolve()\<close>, and
  for the unit \<open>k\<close> the promise \<^verbatim>\<open>next\<close>, the new value of \<^verbatim>\<open>stateOp\<close>, and the promise the
  unit returns. The reactions that a caller attaches to the promise \<^verbatim>\<open>runStateOp\<close> returns
  settle no promise of the queue and are left out.
\<close>

datatype outcome = Fulfilled | Rejected

datatype pstate = Pending | Settled outcome

datatype pid = Initial | Next nat | So nat | Own nat

datatype handler =
  Absent  \<comment> \<open>no handler: the outcome passes to the derived promise\<close>
| Swallow  \<comment> \<open>\<^verbatim>\<open>() => undefined\<close>\<close>
| CallUnit nat  \<comment> \<open>\<^verbatim>\<open>fn\<close>, the unit\<close>

datatype reaction = Reaction (onFulfilled: handler) (onRejected: handler) (derived: pid)

datatype ustate = NotStarted | Running | Finished outcome

record machine =
  pstateOf :: "pid \<Rightarrow> pstate"
  reactionsOf :: "pid \<Rightarrow> reaction list"
  jobs :: "(outcome \<times> reaction) list"
  stateOp :: pid
  unitOf :: "nat \<Rightarrow> ustate"
  submitted :: "nat list"
  started :: "nat list"

definition initMachine :: machine where
  \<comment> \<open>\<^verbatim>\<open>let stateOp = Promise.resolve()\<close>, nothing submitted\<close>
  "initMachine =
     \<lparr>pstateOf = (\<lambda>p. if p = Initial then Settled Fulfilled else Pending),
      reactionsOf = (\<lambda>p. []), jobs = [], stateOp = Initial,
      unitOf = (\<lambda>k. NotStarted), submitted = [], started = []\<rparr>"

definition thenP :: "pid \<Rightarrow> pid \<Rightarrow> handler \<Rightarrow> handler \<Rightarrow> machine \<Rightarrow> machine" where
  \<comment> \<open>\<^verbatim>\<open>q = p.then(onF, onR)\<close>\<close>
  "thenP q p onF onR m =
     (case pstateOf m p of
        Pending \<Rightarrow> m\<lparr>reactionsOf := (reactionsOf m)(p := reactionsOf m p @ [Reaction onF onR q])\<rparr>
      | Settled out \<Rightarrow> m\<lparr>jobs := jobs m @ [(out, Reaction onF onR q)]\<rparr>)"

definition settle :: "pid \<Rightarrow> outcome \<Rightarrow> machine \<Rightarrow> machine" where
  \<comment> \<open>a promise settles once; its reactions become jobs\<close>
  "settle p out m =
     (case pstateOf m p of
        Settled _ \<Rightarrow> m
      | Pending \<Rightarrow>
          m\<lparr>pstateOf := (pstateOf m)(p := Settled out),
            jobs := jobs m @ map (Pair out) (reactionsOf m p),
            reactionsOf := (reactionsOf m)(p := [])\<rparr>)"

definition runStateOp :: "nat \<Rightarrow> machine \<Rightarrow> machine" where
  \<comment> \<open>\<^verbatim>\<open>const next = stateOp.then(fn, fn); stateOp = next.then(() => undefined, () => undefined)\<close>\<close>
  "runStateOp k m =
     (let m1 = thenP (Next k) (stateOp m) (CallUnit k) (CallUnit k) m;
          m2 = thenP (So k) (Next k) Swallow Swallow m1
      in m2\<lparr>stateOp := So k, submitted := submitted m @ [k]\<rparr>)"

definition runJob :: "outcome \<times> reaction \<Rightarrow> machine \<Rightarrow> machine" where
  \<comment> \<open>a job of the reaction \<open>snd j\<close> to the outcome \<open>fst j\<close>. A unit that is called starts,
      and the derived promise follows the promise the unit returns.\<close>
  "runJob j m =
     (case (if fst j = Fulfilled then onFulfilled (snd j) else onRejected (snd j)) of
        Absent \<Rightarrow> settle (derived (snd j)) (fst j) m
      | Swallow \<Rightarrow> settle (derived (snd j)) Fulfilled m
      | CallUnit k \<Rightarrow>
          thenP (derived (snd j)) (Own k) Absent Absent
            (m\<lparr>unitOf := (unitOf m)(k := Running), started := started m @ [k]\<rparr>))"

definition finishUnit :: "nat \<Rightarrow> outcome \<Rightarrow> machine \<Rightarrow> machine" where
  \<comment> \<open>the unit ends: the promise it returned settles\<close>
  "finishUnit k out m = settle (Own k) out (m\<lparr>unitOf := (unitOf m)(k := Finished out)\<rparr>)"

inductive step :: "machine \<Rightarrow> machine \<Rightarrow> bool" where
  Submit: "k \<notin> set (submitted m) \<Longrightarrow> step m (runStateOp k m)"
| Job: "j \<in> set (jobs m) \<Longrightarrow> step m (runJob j (m\<lparr>jobs := remove1 j (jobs m)\<rparr>))"
| Finish: "unitOf m k = Running \<Longrightarrow> step m (finishUnit k out m)"

inductive reachable :: "machine \<Rightarrow> bool" where
  Start: "reachable initMachine"
| After: "reachable m \<Longrightarrow> step m m' \<Longrightarrow> reachable m'"

inductive failingRun :: "machine \<Rightarrow> machine \<Rightarrow> bool" where
  \<comment> \<open>a run in which nothing is submitted and every unit that ends is rejected\<close>
  Here: "failingRun m m"
| ThenJob: "failingRun m m' \<Longrightarrow> j \<in> set (jobs m')
     \<Longrightarrow> failingRun m (runJob j (m'\<lparr>jobs := remove1 j (jobs m')\<rparr>))"
| ThenReject: "failingRun m m' \<Longrightarrow> unitOf m' k = Running \<Longrightarrow> failingRun m (finishUnit k Rejected m')"

definition callReaction :: "nat \<Rightarrow> reaction" where
  "callReaction k = Reaction (CallUnit k) (CallUnit k) (Next k)"

definition swallowReaction :: "nat \<Rightarrow> reaction" where
  "swallowReaction k = Reaction Swallow Swallow (So k)"

definition forwardReaction :: "nat \<Rightarrow> reaction" where
  "forwardReaction k = Reaction Absent Absent (Next k)"

definition lastSo :: "nat list \<Rightarrow> pid" where
  \<comment> \<open>the value of \<^verbatim>\<open>stateOp\<close> after these units were submitted\<close>
  "lastSo ks = (if ks = [] then Initial else So (last ks))"

datatype phase = Ready | Executing | Forwarding outcome | Swallowing outcome

definition untouched :: "machine \<Rightarrow> nat \<Rightarrow> bool" where
  "untouched m k =
     (unitOf m k = NotStarted
      \<and> pstateOf m (Next k) = Pending \<and> reactionsOf m (Next k) = []
      \<and> pstateOf m (So k) = Pending \<and> reactionsOf m (So k) = []
      \<and> pstateOf m (Own k) = Pending \<and> reactionsOf m (Own k) = [])"

definition doneUnit :: "machine \<Rightarrow> nat \<Rightarrow> bool" where
  "doneUnit m k =
     ((\<exists>out. unitOf m k = Finished out \<and> pstateOf m (Next k) = Settled out
             \<and> pstateOf m (Own k) = Settled out)
      \<and> pstateOf m (So k) = Settled Fulfilled
      \<and> reactionsOf m (Next k) = [] \<and> reactionsOf m (So k) = [] \<and> reactionsOf m (Own k) = [])"

fun waitingFrom :: "machine \<Rightarrow> pid \<Rightarrow> nat list \<Rightarrow> bool" where
  "waitingFrom m p [] = True"
| "waitingFrom m p (k # ks) =
     (unitOf m k = NotStarted
      \<and> pstateOf m p = Pending \<and> reactionsOf m p = [callReaction k]
      \<and> pstateOf m (Next k) = Pending \<and> reactionsOf m (Next k) = [swallowReaction k]
      \<and> pstateOf m (So k) = Pending
      \<and> pstateOf m (Own k) = Pending \<and> reactionsOf m (Own k) = []
      \<and> waitingFrom m (So k) ks)"

definition activeUnit :: "machine \<Rightarrow> pid \<Rightarrow> nat \<Rightarrow> phase \<Rightarrow> bool" where
  "activeUnit m p k ph =
     (pstateOf m p = Settled Fulfilled \<and> reactionsOf m p = [] \<and> pstateOf m (So k) = Pending
      \<and> (case ph of
            Ready \<Rightarrow>
              unitOf m k = NotStarted
              \<and> pstateOf m (Next k) = Pending \<and> reactionsOf m (Next k) = [swallowReaction k]
              \<and> pstateOf m (Own k) = Pending \<and> reactionsOf m (Own k) = []
              \<and> jobs m = [(Fulfilled, callReaction k)]
          | Executing \<Rightarrow>
              unitOf m k = Running
              \<and> pstateOf m (Next k) = Pending \<and> reactionsOf m (Next k) = [swallowReaction k]
              \<and> pstateOf m (Own k) = Pending \<and> reactionsOf m (Own k) = [forwardReaction k]
              \<and> jobs m = []
          | Forwarding out \<Rightarrow>
              unitOf m k = Finished out
              \<and> pstateOf m (Next k) = Pending \<and> reactionsOf m (Next k) = [swallowReaction k]
              \<and> pstateOf m (Own k) = Settled out \<and> reactionsOf m (Own k) = []
              \<and> jobs m = [(out, forwardReaction k)]
          | Swallowing out \<Rightarrow>
              unitOf m k = Finished out
              \<and> pstateOf m (Next k) = Settled out \<and> reactionsOf m (Next k) = []
              \<and> pstateOf m (Own k) = Settled out \<and> reactionsOf m (Own k) = []
              \<and> jobs m = [(out, swallowReaction k)]))"

definition queueAt :: "machine \<Rightarrow> nat list \<Rightarrow> (nat \<times> phase) option \<Rightarrow> nat list \<Rightarrow> bool" where
  \<comment> \<open>the machine holds a queue: the units \<open>ds\<close> are done, \<open>act\<close> is the unit at the head with
      its phase, the units \<open>ws\<close> wait behind it\<close>
  "queueAt m ds act ws =
     (distinct (submitted m) \<and> stateOp m = lastSo (submitted m)
      \<and> reactionsOf m (stateOp m) = []
      \<and> pstateOf m Initial = Settled Fulfilled \<and> reactionsOf m Initial = []
      \<and> (\<forall>k\<in>set ds. doneUnit m k)
      \<and> (\<forall>k. k \<notin> set (submitted m) \<longrightarrow> untouched m k)
      \<and> (case act of
            None \<Rightarrow> submitted m = ds \<and> ws = [] \<and> jobs m = [] \<and> started m = ds
          | Some (a, ph) \<Rightarrow>
              submitted m = ds @ a # ws
              \<and> activeUnit m (lastSo ds) a ph
              \<and> started m = ds @ (if ph = Ready then [] else [a])
              \<and> waitingFrom m (So a) ws))"

definition queueInvariant :: "machine \<Rightarrow> bool" where
  \<comment> \<open>the invariant of the queue\<close>
  "queueInvariant m = (\<exists>ds act ws. queueAt m ds act ws)"

definition queueSample :: machine where
  \<comment> \<open>two units are submitted, the first one starts and is rejected\<close>
  "queueSample =
     finishUnit 1 Rejected
       (runJob (Fulfilled, callReaction 1)
          ((runStateOp 2 (runStateOp 1 initMachine))
             \<lparr>jobs := remove1 (Fulfilled, callReaction 1)
                        (jobs (runStateOp 2 (runStateOp 1 initMachine)))\<rparr>))"

section \<open>Normalised lines\<close>

definition goodLine :: "jsstring \<Rightarrow> bool" where
  \<comment> \<open>a line as the normaliser leaves it: not empty, no newline, no white space at either end\<close>
  "goodLine l = (l \<noteq> [] \<and> 10 \<notin> set l \<and> \<not> isWhiteSpace (hd l) \<and> \<not> isWhiteSpace (last l))"

lemma isWhiteSpace_simps [simp]: "isWhiteSpace 10" "isWhiteSpace 13"
  by (simp_all add: isWhiteSpace_def)

lemma trim_Nil [simp]: "trim [] = []"
  by (simp add: trim_def)

lemma set_trim: "set (trim s) \<subseteq> set s"
proof -
  have "set (trim s) = set (dropWhile isWhiteSpace (rev (dropWhile isWhiteSpace s)))"
    by (simp add: trim_def)
  also have "\<dots> \<subseteq> set (rev (dropWhile isWhiteSpace s))"
    by (rule set_dropWhileD [THEN subsetI])
  also have "\<dots> \<subseteq> set s"
    using set_dropWhileD by fastforce
  finally show ?thesis .
qed

lemma trim_id: "s \<noteq> [] \<Longrightarrow> \<not> isWhiteSpace (hd s) \<Longrightarrow> \<not> isWhiteSpace (last s) \<Longrightarrow> trim s = s"
proof -
  assume ne: "s \<noteq> []" and h: "\<not> isWhiteSpace (hd s)" and l: "\<not> isWhiteSpace (last s)"
  from ne h have a: "dropWhile isWhiteSpace s = s"
    by (cases s) simp_all
  from ne l have b: "dropWhile isWhiteSpace (rev s) = rev s"
    by (cases "rev s") (simp_all add: last_rev [symmetric] hd_rev)
  show ?thesis by (simp add: trim_def a b)
qed

lemma last_dropWhile_keep: "dropWhile P xs \<noteq> [] \<Longrightarrow> last (dropWhile P xs) = last xs"
  by (induction xs) auto

lemma trim_ends:
  assumes "trim s \<noteq> []"
  shows "\<not> isWhiteSpace (hd (trim s))" and "\<not> isWhiteSpace (last (trim s))"
proof -
  let ?a = "dropWhile isWhiteSpace s"
  let ?b = "dropWhile isWhiteSpace (rev ?a)"
  from assms have bne: "?b \<noteq> []" by (simp add: trim_def)
  then have hb: "\<not> isWhiteSpace (hd ?b)" by (rule hd_dropWhile)
  have ane: "?a \<noteq> []"
  proof
    assume e: "?a = []"
    have "?b = []" unfolding e by simp
    with bne show False ..
  qed
  then have ha: "\<not> isWhiteSpace (hd ?a)" by (rule hd_dropWhile)
  have "last (trim s) = hd ?b" using bne by (simp add: trim_def last_rev)
  with hb show "\<not> isWhiteSpace (last (trim s))" by simp
  have "hd (trim s) = last ?b" using bne by (simp add: trim_def hd_rev)
  also have "\<dots> = last (rev ?a)" using bne by (rule last_dropWhile_keep)
  also have "\<dots> = hd ?a" using ane by (simp add: last_rev)
  finally show "\<not> isWhiteSpace (hd (trim s))" using ha by simp
qed

lemma goodLine_trim: "10 \<notin> set s \<Longrightarrow> trim s \<noteq> [] \<Longrightarrow> goodLine (trim s)"
  using set_trim [of s] trim_ends [of s] by (auto simp: goodLine_def)

lemma trim_goodLine [simp]: "goodLine l \<Longrightarrow> trim l = l"
  by (simp add: goodLine_def trim_id)

lemma splitNL_not_Nil [simp]: "splitNL s \<noteq> []"
  by (induction s) (auto split: list.splits)

lemma splitNL_no_newline: "l \<in> set (splitNL s) \<Longrightarrow> 10 \<notin> set l"
proof (induction s arbitrary: l)
  case Nil
  then show ?case by simp
next
  case (Cons c cs)
  then show ?case
    by (cases "splitNL cs") (auto split: if_splits)
qed

lemma splitNL_append_newline:
  "10 \<notin> set l \<Longrightarrow> splitNL (l @ 10 # s) = l # splitNL s"
  by (induction l) auto

lemma splitNL_line: "10 \<notin> set l \<Longrightarrow> splitNL l = [l]"
  by (induction l) auto

lemma splitNL_joinNL:
  "ls \<noteq> [] \<Longrightarrow> \<forall>l\<in>set ls. 10 \<notin> set l \<Longrightarrow> splitNL (joinNL ls) = ls"
proof (induction ls rule: joinNL.induct)
  case 1
  then show ?case by simp
next
  case (2 l)
  then show ?case by (simp add: splitNL_line)
next
  case (3 l v va)
  then show ?case by (simp add: splitNL_append_newline)
qed

lemma replaceCRLF_line_newline:
  "10 \<notin> set l \<Longrightarrow> l = [] \<or> last l \<noteq> 13 \<Longrightarrow> replaceCRLF (l @ 10 # s) = l @ 10 # replaceCRLF s"
proof (induction l)
  case Nil
  then show ?case by (cases s) auto
next
  case (Cons a l)
  show ?case
  proof (cases l)
    case Nil
    with Cons.prems show ?thesis by (cases s) auto
  next
    case (Cons b l')
    with Cons.prems Cons.IH show ?thesis by auto
  qed
qed

lemma replaceCRLF_line: "10 \<notin> set l \<Longrightarrow> replaceCRLF l = l"
  by (induction l rule: replaceCRLF.induct) auto

lemma replaceCRLF_joinNL:
  "\<forall>l\<in>set ls. 10 \<notin> set l \<and> (l = [] \<or> last l \<noteq> 13) \<Longrightarrow> replaceCRLF (joinNL ls) = joinNL ls"
proof (induction ls rule: joinNL.induct)
  case 1
  then show ?case by simp
next
  case (2 l)
  then show ?case by (simp add: replaceCRLF_line)
next
  case (3 l v va)
  then show ?case by (simp add: replaceCRLF_line_newline)
qed

lemma joinNL_ends:
  "ls \<noteq> [] \<Longrightarrow> \<forall>l\<in>set ls. l \<noteq> [] \<Longrightarrow>
     joinNL ls \<noteq> [] \<and> hd (joinNL ls) = hd (hd ls) \<and> last (joinNL ls) = last (last ls)"
  by (induction ls rule: joinNL.induct) auto

lemma trim_joinNL_good: "\<forall>l\<in>set ls. goodLine l \<Longrightarrow> trim (joinNL ls) = joinNL ls"
proof (cases ls)
  case Nil
  then show ?thesis by simp
next
  case (Cons a as)
  assume g: "\<forall>l\<in>set ls. goodLine l"
  with Cons have ne: "ls \<noteq> []" "\<forall>l\<in>set ls. l \<noteq> []" by (auto simp: goodLine_def)
  from joinNL_ends [OF ne] g ne(1) show ?thesis
    by (intro trim_id) (auto simp: goodLine_def)
qed

lemma good_no_cr:
  assumes g: "\<forall>l\<in>set ls. l = [] \<or> goodLine l"
  shows "\<forall>l\<in>set ls. 10 \<notin> set l \<and> (l = [] \<or> last l \<noteq> 13)"
proof
  fix l assume "l \<in> set ls"
  with g have "l = [] \<or> goodLine l" by blast
  then show "10 \<notin> set l \<and> (l = [] \<or> last l \<noteq> 13)"
  proof
    assume "l = []" then show ?thesis by simp
  next
    assume gl: "goodLine l"
    then have "\<not> isWhiteSpace (last l)" by (simp add: goodLine_def)
    then have "last l \<noteq> 13" by (metis isWhiteSpace_simps(2))
    with gl show ?thesis by (simp add: goodLine_def)
  qed
qed

lemma normalize_joinNL:
  assumes ne: "ls \<noteq> []" and g: "\<forall>l\<in>set ls. l = [] \<or> goodLine l"
  shows "normalizeMultilineText (joinNL ls) = joinNL (filter (\<lambda>l. l \<noteq> []) ls)"
proof -
  from g have a: "\<forall>l\<in>set ls. 10 \<notin> set l \<and> (l = [] \<or> last l \<noteq> 13)"
    by (rule good_no_cr)
  then have r: "replaceCRLF (joinNL ls) = joinNL ls" by (rule replaceCRLF_joinNL)
  from a have "\<forall>l\<in>set ls. 10 \<notin> set l" by blast
  with ne have s: "splitNL (joinNL ls) = ls" by (rule splitNL_joinNL)
  from g have t: "map trim ls = ls" by (induction ls) auto
  have f: "\<forall>l\<in>set (filter (\<lambda>l. l \<noteq> []) ls). goodLine l" using g by auto
  have "normalizeMultilineText (joinNL ls) = trim (joinNL (filter (\<lambda>l. l \<noteq> []) ls))"
    unfolding normalizeMultilineText_def r s t by simp
  also have "\<dots> = joinNL (filter (\<lambda>l. l \<noteq> []) ls)" by (rule trim_joinNL_good [OF f])
  finally show ?thesis .
qed

lemma filter_nonempty_good: "\<forall>l\<in>set ls. goodLine l \<Longrightarrow> filter (\<lambda>l. l \<noteq> []) ls = ls"
  by (induction ls) (simp_all add: goodLine_def)

lemma normalize_lines_good:
  "\<forall>l\<in>set (filter (\<lambda>line. length line > 0) (map trim (splitNL (replaceCRLF raw)))). goodLine l"
  using splitNL_no_newline goodLine_trim by auto

lemma normalize_as_join:
  "normalizeMultilineText raw =
     joinNL (filter (\<lambda>line. length line > 0) (map trim (splitNL (replaceCRLF raw))))"
  by (simp only: normalizeMultilineText_def trim_joinNL_good [OF normalize_lines_good])

section \<open>The normaliser\<close>

text \<open>
  C8: \<^verbatim>\<open>normalizeMultilineText\<close> is idempotent: normalising a normalised text gives it
  back unchanged, for every input string.
\<close>

theorem normalizeMultilineText_idempotent:
  "normalizeMultilineText (normalizeMultilineText x) = normalizeMultilineText x"
proof -
  let ?ls = "filter (\<lambda>line. length line > 0) (map trim (splitNL (replaceCRLF x)))"
  have g: "\<forall>l\<in>set ?ls. goodLine l" by (rule normalize_lines_good)
  have n: "normalizeMultilineText x = joinNL ?ls" by (rule normalize_as_join)
  show ?thesis
  proof (cases "?ls = []")
    case True
    with n have "normalizeMultilineText x = []" by (simp only: joinNL.simps)
    then show ?thesis by (simp add: normalizeMultilineText_def)
  next
    case False
    from g have g': "\<forall>l\<in>set ?ls. l = [] \<or> goodLine l" by blast
    have "filter (\<lambda>l. l \<noteq> []) ?ls = ?ls"
      using g by (rule filter_nonempty_good)
    with normalize_joinNL [OF False g'] n show ?thesis by (simp only:)
  qed
qed

section \<open>Zero-padded subgroup tokens\<close>


lemma digit_not_space: "isDigit c \<Longrightarrow> \<not> isWhiteSpace c"
  by (auto simp: isDigit_def isWhiteSpace_def)

lemma separator_not_digit: "isSeparator c \<Longrightarrow> \<not> isDigit c"
  by (auto simp: isDigit_def isSeparator_def)

lemma matchTokenAt_nondigit: "\<not> isDigit c \<Longrightarrow> matchTokenAt (c # cs) = None"
  by (simp add: matchTokenAt_def)

lemma execAll_skip_nondigits: "\<forall>c\<in>set pre. \<not> isDigit c \<Longrightarrow> execAll (pre @ s) = execAll s"
  by (induction pre) (simp_all add: matchTokenAt_nondigit)

lemma matchTokenAt_token:
  assumes d1: "d1 \<noteq> []" "\<forall>c\<in>set d1. isDigit c"
    and d2: "d2 \<noteq> []" "\<forall>c\<in>set d2. isDigit c"
    and sep: "isSeparator sep"
    and post: "post = [] \<or> \<not> isDigit (hd post)"
  shows "matchTokenAt (d1 @ sep # d2 @ post) = Some (d1, d2, post)"
proof -
  from sep have ns: "\<not> isDigit sep" by (rule separator_not_digit)
  from d1 ns have t1: "takeWhile isDigit (d1 @ sep # d2 @ post) = d1"
    by (simp add: takeWhile_append2)
  from d1 ns have r1: "dropWhile isDigit (d1 @ sep # d2 @ post) = sep # d2 @ post"
    by (simp add: dropWhile_append2)
  from post have p: "takeWhile isDigit post = [] \<and> dropWhile isDigit post = post"
    by (cases post) auto
  from d2 p have t2: "takeWhile isDigit (d2 @ post) = d2"
    by (simp add: takeWhile_append2)
  from d2 p have r2: "dropWhile isDigit (d2 @ post) = post"
    by (simp add: dropWhile_append2)
  show ?thesis
    unfolding matchTokenAt_def t1 r1 using d1(1) d2(1) sep by (simp add: t2 r2)
qed

lemma execAll_token:
  assumes d1: "d1 \<noteq> []" "\<forall>c\<in>set d1. isDigit c"
    and d2: "d2 \<noteq> []" "\<forall>c\<in>set d2. isDigit c"
    and sep: "isSeparator sep"
    and post: "post = [] \<or> \<not> isDigit (hd post)"
  shows "execAll (d1 @ sep # d2 @ post) = (d1, d2) # execAll post"
proof -
  from d1(1) obtain c cs where c: "d1 @ sep # d2 @ post = c # cs"
    by (cases d1) auto
  have "matchTokenAt (c # cs) = Some (d1, d2, post)"
    unfolding c [symmetric] using assms by (rule matchTokenAt_token)
  then have "execAll (c # cs) = (d1, d2) # execAll post" by simp
  then show ?thesis by (simp only: c)
qed

lemma normalizeGroupId_digits:
  assumes d1: "d1 \<noteq> []" "\<forall>c\<in>set d1. isDigit c"
    and d2: "d2 \<noteq> []" "\<forall>c\<in>set d2. isDigit c"
  shows "normalizeGroupId big (d1 @ [46] @ d2) = Some (renderNumber big d1 @ [46] @ renderNumber big d2)"
proof -
  let ?s = "d1 @ [46] @ d2"
  have ne: "?s \<noteq> []" using d1(1) by simp
  have h: "\<not> isWhiteSpace (hd ?s)" using d1 by (cases d1) (auto dest: digit_not_space)
  have l: "\<not> isWhiteSpace (last ?s)" using d2 by (auto dest: digit_not_space)
  have t: "trim ?s = ?s" using ne h l by (rule trim_id)
  have "isSeparator 46" by (simp add: isSeparator_def)
  with d1 d2 have "matchTokenAt (d1 @ 46 # d2 @ []) = Some (d1, d2, [])"
    by (intro matchTokenAt_token) simp_all
  then have m: "matchGroupId ?s = Some (d1, d2)" by (simp add: matchGroupId_def)
  show ?thesis unfolding normalizeGroupId_def t using ne m by simp
qed

lemma pushGroup_keeps: "g \<in> set out \<Longrightarrow> g \<in> set (pushGroup big out m)"
  by (simp add: pushGroup_def split: option.splits)

lemma foldl_pushGroup_keeps: "g \<in> set out \<Longrightarrow> g \<in> set (foldl (pushGroup big) out ms)"
  by (induction ms arbitrary: out) (simp_all add: pushGroup_keeps)

lemma pushGroup_distinct: "distinct out \<Longrightarrow> distinct (pushGroup big out m)"
  by (simp add: pushGroup_def split: option.splits)

lemma foldl_pushGroup_distinct: "distinct out \<Longrightarrow> distinct (foldl (pushGroup big) out ms)"
  by (induction ms arbitrary: out) (simp_all add: pushGroup_distinct)

lemma canonical_possible:
  assumes "1 \<le> a" "a \<le> 6" "1 \<le> b" "b \<le> 2"
  shows "decDigits a @ [46] @ decDigits b \<in> set POSSIBLE_GROUPS"
proof -
  from assms have a: "a = 1 \<or> a = 2 \<or> a = 3 \<or> a = 4 \<or> a = 5 \<or> a = 6" by arith
  from assms have b: "b = 1 \<or> b = 2" by arith
  from a b show ?thesis
    by (auto simp: decDigits.simps POSSIBLE_GROUPS_def)
qed

lemma renderNumber_small: "digitsValue ds \<le> 6 \<Longrightarrow> renderNumber big ds = decDigits (digitsValue ds)"
  by (simp add: renderNumber_def)

lemma scanStopsAfter_suffix: "scanStopsAfter (q @ r) \<Longrightarrow> scanStopsAfter r"
proof (cases "r = []")
  case True
  then show ?thesis by (simp add: scanStopsAfter_def)
next
  case False
  assume s: "scanStopsAfter (q @ r)"
  from False have l: "last (q @ r) = last r" by simp
  from False have b: "butlast (q @ r) = q @ butlast r" by (simp add: butlast_append)
  have bl: "butlast r \<noteq> [] \<Longrightarrow> last (q @ butlast r) = last (butlast r)" by simp
  from s False show ?thesis
    unfolding scanStopsAfter_def l b using bl by auto
qed

lemma nondigits_stop: "\<forall>c\<in>set pre. \<not> isDigit c \<Longrightarrow> scanStopsAfter pre"
proof (cases "pre = []")
  case True
  then show ?thesis by (simp add: scanStopsAfter_def)
next
  case False
  assume a: "\<forall>c\<in>set pre. \<not> isDigit c"
  from False have "last pre \<in> set pre" by simp
  moreover have "butlast pre \<noteq> [] \<Longrightarrow> last (butlast pre) \<in> set pre"
    by (meson in_set_butlastD last_in_set)
  ultimately show ?thesis using a by (auto simp: scanStopsAfter_def)
qed

lemma matchTokenAt_append:
  assumes ne: "p \<noteq> []" and stop: "scanStopsAfter p"
  shows "matchTokenAt (p @ s) =
           (case matchTokenAt p of None \<Rightarrow> None | Some (m1, m2, rest) \<Rightarrow> Some (m1, m2, rest @ s))"
    and "matchTokenAt p = Some (m1, m2, rest) \<Longrightarrow> \<exists>q. p = q @ rest"
proof -
  let ?d1 = "takeWhile isDigit p" and ?r = "dropWhile isDigit p"
  from ne stop have nd: "\<not> isDigit (last p)" by (simp add: scanStopsAfter_def)
  from ne have lp: "last p \<in> set p" by simp
  have t1: "takeWhile isDigit (p @ s) = ?d1" using lp nd by (rule takeWhile_append1)
  have r1: "dropWhile isDigit (p @ s) = ?r @ s" using lp nd by (rule dropWhile_append1)
  have rne: "?r \<noteq> []" using lp nd by (auto simp: dropWhile_eq_Nil_conv)
  then obtain c r' where r: "?r = c # r'" by (cases ?r) auto
  have p: "p = ?d1 @ c # r'" using r by (metis takeWhile_dropWhile_id)
  show "matchTokenAt (p @ s) =
           (case matchTokenAt p of None \<Rightarrow> None | Some (m1, m2, rest) \<Rightarrow> Some (m1, m2, rest @ s))"
  proof (cases "?d1 \<noteq> [] \<and> isSeparator c")
    case False
    then show ?thesis unfolding matchTokenAt_def t1 r1 r by (auto simp: Let_def)
  next
    case True
    have r'ne: "r' \<noteq> []"
    proof
      assume e: "r' = []"
      with p have pp: "p = ?d1 @ [c]" by simp
      then have "last p = c" "butlast p = ?d1" by (metis last_snoc, metis butlast_snoc)
      moreover from True have "last ?d1 \<in> set ?d1" by simp
      then have "isDigit (last ?d1)" by (auto dest: set_takeWhileD)
      ultimately show False using stop ne True by (simp add: scanStopsAfter_def)
    qed
    have "last p = last r'" using r'ne by (subst p) simp
    with nd have nd': "\<not> isDigit (last r')" by simp
    from r'ne have lr: "last r' \<in> set r'" by simp
    have t2: "takeWhile isDigit (r' @ s) = takeWhile isDigit r'" using lr nd' by (rule takeWhile_append1)
    have r2: "dropWhile isDigit (r' @ s) = dropWhile isDigit r' @ s" using lr nd' by (rule dropWhile_append1)
    show ?thesis unfolding matchTokenAt_def t1 r1 r using True by (simp add: t2 r2 Let_def)
  qed
  assume m: "matchTokenAt p = Some (m1, m2, rest)"
  then have "rest = dropWhile isDigit r'"
    unfolding matchTokenAt_def r by (auto simp: Let_def split: if_splits)
  then have "p = (?d1 @ c # takeWhile isDigit r') @ rest" using p by simp
  then show "\<exists>q. p = q @ rest" ..
qed

lemma execAll_append: "scanStopsAfter pre \<Longrightarrow> execAll (pre @ s) = execAll pre @ execAll s"
proof (induction pre rule: execAll.induct)
  case 1
  then show ?case by simp
next
  case (2 c cs)
  have ne: "c # cs \<noteq> []" by simp
  note a1 = matchTokenAt_append(1) [OF ne "2.prems", of s]
  note a2 = matchTokenAt_append(2) [OF ne "2.prems"]
  show ?case
  proof (cases "matchTokenAt (c # cs)")
    case None
    with a1 have n: "matchTokenAt (c # cs @ s) = None" by simp
    from "2.prems" have "scanStopsAfter ([c] @ cs)" by simp
    then have "scanStopsAfter cs" by (rule scanStopsAfter_suffix)
    with "2.IH"(1) [OF None] have "execAll (cs @ s) = execAll cs @ execAll s" by simp
    with None n show ?thesis by simp
  next
    case (Some x)
    obtain m1 m2 rest where x: "x = (m1, m2, rest)" by (cases x)
    with Some have m: "matchTokenAt (c # cs) = Some (m1, m2, rest)" by simp
    with a1 have n: "matchTokenAt (c # cs @ s) = Some (m1, m2, rest @ s)" by simp
    from a2 [OF m] obtain q where "c # cs = q @ rest" ..
    with "2.prems" have "scanStopsAfter rest" by (metis scanStopsAfter_suffix)
    with "2.IH"(2) [OF m refl refl] have "execAll (rest @ s) = execAll rest @ execAll s" by simp
    with m n show ?thesis by simp
  qed
qed

lemma matchTokenAt_digits:
  "matchTokenAt s = Some (m1, m2, rest) \<Longrightarrow>
     m1 \<noteq> [] \<and> (\<forall>c\<in>set m1. isDigit c) \<and> m2 \<noteq> [] \<and> (\<forall>c\<in>set m2. isDigit c)"
  by (auto simp: matchTokenAt_def Let_def split: if_splits list.splits dest: set_takeWhileD)

lemma execAll_digits:
  "(m1, m2) \<in> set (execAll raw) \<Longrightarrow>
     m1 \<noteq> [] \<and> (\<forall>c\<in>set m1. isDigit c) \<and> m2 \<noteq> [] \<and> (\<forall>c\<in>set m2. isDigit c)"
proof (induction raw rule: execAll.induct)
  case 1
  then show ?case by simp
next
  case (2 c cs)
  show ?case
  proof (cases "matchTokenAt (c # cs)")
    case None
    with "2.prems" "2.IH"(1) show ?thesis by simp
  next
    case (Some x)
    obtain a b rest where x: "x = (a, b, rest)" by (cases x)
    with Some have m: "matchTokenAt (c # cs) = Some (a, b, rest)" by simp
    with "2.prems" have "(m1, m2) = (a, b) \<or> (m1, m2) \<in> set (execAll rest)" by simp
    then show ?thesis
    proof
      assume "(m1, m2) = (a, b)"
      with matchTokenAt_digits [OF m] show ?thesis by simp
    next
      assume "(m1, m2) \<in> set (execAll rest)"
      with "2.IH"(2) [OF m refl refl] show ?thesis by simp
    qed
  qed
qed

lemma foldl_pushGroup_member:
  "m \<in> set ms \<Longrightarrow> normalizeGroupId big (fst m @ [46] @ snd m) = Some g \<Longrightarrow> g \<noteq> [] \<Longrightarrow>
     g \<in> set (foldl (pushGroup big) out ms)"
proof (induction ms arbitrary: out)
  case Nil
  then show ?case by simp
next
  case (Cons a ms)
  show ?case
  proof (cases "m = a")
    case True
    with Cons.prems have "g \<in> set (pushGroup big out a)" by (simp add: pushGroup_def)
    then show ?thesis by (simp add: foldl_pushGroup_keeps)
  next
    case False
    with Cons.prems have "m \<in> set ms" by simp
    with Cons.IH Cons.prems show ?thesis by simp
  qed
qed

text \<open>
  C10: every token \<open>digits, '.' or ',', digits\<close> of the input whose two numbers form a valid
  subgroup is accepted whatever its zero padding: the result holds the canonical dotted id,
  written without leading zeros. The tokens of an input are the matches of the pattern, at
  any place of the message and in any number. Digits, a separator and digits are such a
  match when no digit follows them and the text before them ends neither with a digit nor
  with a digit and a separator; for the token alone the result is exactly the canonical id.
\<close>

theorem parseGroups_zero_padded:
  "(\<forall>(m1, m2) \<in> set (execAll raw).
       1 \<le> digitsValue m1 \<and> digitsValue m1 \<le> 6 \<and> 1 \<le> digitsValue m2 \<and> digitsValue m2 \<le> 2
       \<longrightarrow> decDigits (digitsValue m1) @ [46] @ decDigits (digitsValue m2)
             \<in> set (parseGroupsFromUserInput big raw))
   \<and> (d1 \<noteq> [] \<and> (\<forall>c\<in>set d1. isDigit c) \<and> d2 \<noteq> [] \<and> (\<forall>c\<in>set d2. isDigit c)
        \<and> isSeparator sep \<and> scanStopsAfter pre \<and> (post = [] \<or> \<not> isDigit (hd post))
      \<longrightarrow> (d1, d2) \<in> set (execAll (pre @ d1 @ [sep] @ d2 @ post))
        \<and> (1 \<le> digitsValue d1 \<and> digitsValue d1 \<le> 6 \<and> 1 \<le> digitsValue d2 \<and> digitsValue d2 \<le> 2
           \<longrightarrow> decDigits (digitsValue d1) @ [46] @ decDigits (digitsValue d2)
                 \<in> set (parseGroupsFromUserInput big (pre @ d1 @ [sep] @ d2 @ post))
               \<and> parseGroupsFromUserInput big (d1 @ [sep] @ d2)
                 = [decDigits (digitsValue d1) @ [46] @ decDigits (digitsValue d2)]))"
proof -
  have every: "decDigits (digitsValue m1) @ [46] @ decDigits (digitsValue m2)
             \<in> set (parseGroupsFromUserInput big r)"
    if mem: "(m1, m2) \<in> set (execAll r)"
      and major: "1 \<le> digitsValue m1" "digitsValue m1 \<le> 6"
      and minor: "1 \<le> digitsValue m2" "digitsValue m2 \<le> 2"
    for m1 m2 r
  proof -
    let ?g = "decDigits (digitsValue m1) @ [46] @ decDigits (digitsValue m2)"
    from execAll_digits [OF mem] have d1: "m1 \<noteq> []" "\<forall>c\<in>set m1. isDigit c"
      and d2: "m2 \<noteq> []" "\<forall>c\<in>set m2. isDigit c" by simp_all
    have poss: "?g \<in> set POSSIBLE_GROUPS" using major minor by (rule canonical_possible)
    have ne: "?g \<noteq> []" by simp
    have n: "normalizeGroupId big (fst (m1, m2) @ [46] @ snd (m1, m2)) = Some ?g"
      using normalizeGroupId_digits [OF d1 d2, of big] major(2) minor(2)
      by (simp add: renderNumber_small)
    have "?g \<in> set (foldl (pushGroup big) [] (execAll r))"
      using mem n ne by (rule foldl_pushGroup_member)
    with poss show ?thesis by (simp add: parseGroupsFromUserInput_def)
  qed
  have first: "\<forall>(m1, m2) \<in> set (execAll raw).
       1 \<le> digitsValue m1 \<and> digitsValue m1 \<le> 6 \<and> 1 \<le> digitsValue m2 \<and> digitsValue m2 \<le> 2
       \<longrightarrow> decDigits (digitsValue m1) @ [46] @ decDigits (digitsValue m2)
             \<in> set (parseGroupsFromUserInput big raw)"
    using every by blast
  have second: "(d1, d2) \<in> set (execAll (pre @ d1 @ [sep] @ d2 @ post))
        \<and> (1 \<le> digitsValue d1 \<and> digitsValue d1 \<le> 6 \<and> 1 \<le> digitsValue d2 \<and> digitsValue d2 \<le> 2
           \<longrightarrow> decDigits (digitsValue d1) @ [46] @ decDigits (digitsValue d2)
                 \<in> set (parseGroupsFromUserInput big (pre @ d1 @ [sep] @ d2 @ post))
               \<and> parseGroupsFromUserInput big (d1 @ [sep] @ d2)
                 = [decDigits (digitsValue d1) @ [46] @ decDigits (digitsValue d2)])"
    if d1: "d1 \<noteq> []" "\<forall>c\<in>set d1. isDigit c" and d2: "d2 \<noteq> []" "\<forall>c\<in>set d2. isDigit c"
      and sep: "isSeparator sep" and pre: "scanStopsAfter pre"
      and post: "post = [] \<or> \<not> isDigit (hd post)"
  proof -
    let ?g = "decDigits (digitsValue d1) @ [46] @ decDigits (digitsValue d2)"
    have "execAll (pre @ d1 @ [sep] @ d2 @ post) = execAll pre @ (d1, d2) # execAll post"
      using execAll_append [OF pre] execAll_token [OF d1 d2 sep post] by simp
    then have mem: "(d1, d2) \<in> set (execAll (pre @ d1 @ [sep] @ d2 @ post))" by simp
    have alone: "parseGroupsFromUserInput big (d1 @ [sep] @ d2) = [?g]"
      if major: "1 \<le> digitsValue d1" "digitsValue d1 \<le> 6"
        and minor: "1 \<le> digitsValue d2" "digitsValue d2 \<le> 2"
    proof -
      have poss: "?g \<in> set POSSIBLE_GROUPS" using major minor by (rule canonical_possible)
      have n: "normalizeGroupId big (d1 @ [46] @ d2) = Some ?g"
        using normalizeGroupId_digits [OF d1 d2, of big] major(2) minor(2)
        by (simp add: renderNumber_small)
      have push: "pushGroup big [] (d1, d2) = [?g]" using n by (simp add: pushGroup_def)
      have "execAll (d1 @ sep # d2 @ []) = (d1, d2) # execAll []"
        using d1 d2 sep by (intro execAll_token) simp_all
      then have "foldl (pushGroup big) [] (execAll (d1 @ [sep] @ d2)) = [?g]"
        by (simp add: push)
      with poss show ?thesis by (simp add: parseGroupsFromUserInput_def)
    qed
    from mem every [OF mem] alone show ?thesis by blast
  qed
  from first second show ?thesis by blast
qed

theorem parseGroups_zero_padded_witness:
  "parseGroupsFromUserInput (\<lambda>n. []) (ascii ''1,1; 03.2; 2,01'')
     = [ascii ''1.1'', ascii ''3.2'', ascii ''2.1'']
   \<and> ascii ''3.2'' \<in> set (parseGroupsFromUserInput (\<lambda>n. []) (ascii ''1,1; 03.2; 2,01''))
   \<and> parseGroupsFromUserInput (\<lambda>n. []) (ascii ''01,1'') = [ascii ''1.1'']"
proof -
  note T = parseGroups_zero_padded [of "ascii ''1,1; 03.2; 2,01''" "\<lambda>n. []"
      "ascii ''03''" "ascii ''2''" 46 "ascii ''1,1; ''" "ascii ''; 2,01''"]
  have mem: "(ascii ''03'', ascii ''2'') \<in> set (execAll (ascii ''1,1; 03.2; 2,01''))"
    using T by (simp add: ascii_def isDigit_def isSeparator_def scanStopsAfter_def)
  have v: "1 \<le> digitsValue (ascii ''03'') \<and> digitsValue (ascii ''03'') \<le> 6
      \<and> 1 \<le> digitsValue (ascii ''2'') \<and> digitsValue (ascii ''2'') \<le> 2"
    by (simp add: ascii_def digitsValue_def)
  have g: "decDigits (digitsValue (ascii ''03'')) @ [46] @ decDigits (digitsValue (ascii ''2''))
      = ascii ''3.2''"
    by (simp add: ascii_def digitsValue_def decDigits.simps)
  from T mem v have b: "ascii ''3.2'' \<in> set (parseGroupsFromUserInput (\<lambda>n. []) (ascii ''1,1; 03.2; 2,01''))"
    unfolding g [symmetric] by blast
  have a: "parseGroupsFromUserInput (\<lambda>n. []) (ascii ''1,1; 03.2; 2,01'')
     = [ascii ''1.1'', ascii ''3.2'', ascii ''2.1'']"
    by (simp add: parseGroupsFromUserInput_def pushGroup_def POSSIBLE_GROUPS_def
        normalizeGroupId_def matchGroupId_def matchTokenAt_def trim_def isWhiteSpace_def
        isDigit_def isSeparator_def renderNumber_def digitsValue_def decDigits.simps Let_def
        ascii_def)
  have c: "parseGroupsFromUserInput (\<lambda>n. []) (ascii ''01,1'') = [ascii ''1.1'']"
    using parseGroups_zero_padded [of "[]" "\<lambda>n. []" "ascii ''01''" "ascii ''1''" 44 "[]" "[]"]
    by (simp add: ascii_def isDigit_def isSeparator_def scanStopsAfter_def digitsValue_def
        decDigits.simps)
  from a b c show ?thesis by blast
qed

section \<open>The stored subgroups\<close>

lemma validGroups_parse: "validGroups (parseGroupsFromUserInput big msg)"
proof -
  have "distinct (foldl (pushGroup big) [] (execAll msg))"
    by (rule foldl_pushGroup_distinct) simp
  then show ?thesis
    by (auto simp: validGroups_def parseGroupsFromUserInput_def)
qed

lemma first_position_less: "g \<in> set arr \<Longrightarrow> length (takeWhile (\<lambda>x. x \<noteq> g) arr) < length arr"
  by (induction arr) auto

lemma first_position_nth: "g \<in> set arr \<Longrightarrow> arr ! length (takeWhile (\<lambda>x. x \<noteq> g) arr) = g"
  by (induction arr) auto

lemma set_firstOccurrences: "set (firstOccurrences arr) = set arr"
proof
  show "set (firstOccurrences arr) \<subseteq> set arr"
    by (auto simp: firstOccurrences_def dest: set_zip_leftD)
next
  show "set arr \<subseteq> set (firstOccurrences arr)"
  proof
    fix g assume g: "g \<in> set arr"
    let ?k = "length (takeWhile (\<lambda>x. x \<noteq> g) arr)"
    from g have k: "?k < length arr" by (rule first_position_less)
    from g have n: "arr ! ?k = g" by (rule first_position_nth)
    from k n have "(g, ?k) \<in> set (zip arr [0..<length arr])"
      by (auto simp: set_zip intro!: exI [of _ ?k])
    moreover from g have "indexOf arr g = int ?k" by (simp add: indexOf_def)
    ultimately have "(g, ?k) \<in> set (filter (\<lambda>(g, idx). indexOf arr g = int idx) (zip arr [0..<length arr]))"
      by simp
    then have "fst (g, ?k) \<in> set (firstOccurrences arr)"
      unfolding firstOccurrences_def set_map by (rule imageI)
    then show "g \<in> set (firstOccurrences arr)" by simp
  qed
qed

lemma distinct_firstOccurrences: "distinct (firstOccurrences arr)"
proof -
  let ?zs = "zip arr [0..<length arr]"
  let ?P = "\<lambda>(g, idx). indexOf arr g = int idx"
  have d: "distinct (filter ?P ?zs)"
    by (intro distinct_filter distinct_zipI2) simp
  have i: "inj_on fst (set (filter ?P ?zs))"
    by (rule inj_onI) auto
  from d i show ?thesis
    by (simp add: firstOccurrences_def distinct_map)
qed

lemma validGroups_add:
  "validGroups cur \<Longrightarrow> validGroups toAdd \<Longrightarrow> validGroups (firstOccurrences (cur @ toAdd))"
  by (simp add: validGroups_def set_firstOccurrences distinct_firstOccurrences)

lemma validGroups_remove: "validGroups cur \<Longrightarrow> validGroups (filter (\<lambda>g. g \<notin> set toRemove) cur)"
  by (auto simp: validGroups_def)

lemma stringsOf_strings: "stringsOf (map JStr gs) = gs"
  by (induction gs) (simp_all add: stringsOf_def)

lemma groups_normalizeUser:
  "groups (normalizeUser (JObj kvs)) =
     (case map_of kvs (ascii ''groups'') of Some (JArr xs) \<Rightarrow> Some (stringsOf xs) | _ \<Rightarrow> None)"
  by (simp add: normalizeUser_def isObject_def getField_def Let_def)

text \<open>
  C4, as the code has it: the initial set is valid (ids of the fixed set, none twice);
  adding and removing keep a valid list valid; loading keeps exactly the strings of the
  persisted array, in their order, without a check against the fixed set and without
  removing duplicates, so that a valid persisted list is loaded unchanged.
\<close>

theorem subgroups_invariant:
  "validGroups (parseGroupsFromUserInput big msg)
   \<and> groups (setGroupsFromText big msg u) =
       (if parseGroupsFromUserInput big msg = [] then groups u
        else Some (parseGroupsFromUserInput big msg))
   \<and> (validGroups (currentGroups u) \<longrightarrow> validGroups (currentGroups (addGroupsFromText big msg u)))
   \<and> (validGroups (currentGroups u) \<longrightarrow> validGroups (currentGroups (removeGroupsFromText big msg u)))
   \<and> groups (normalizeUser (JObj kvs)) =
       (case map_of kvs (ascii ''groups'') of Some (JArr xs) \<Rightarrow> Some (stringsOf xs) | _ \<Rightarrow> None)
   \<and> (map_of kvs (ascii ''groups'') = Some (JArr (map JStr gs))
        \<longrightarrow> groups (normalizeUser (JObj kvs)) = Some gs)"
proof -
  have p: "validGroups (parseGroupsFromUserInput big msg)" by (rule validGroups_parse)
  have s: "groups (setGroupsFromText big msg u) =
       (if parseGroupsFromUserInput big msg = [] then groups u
        else Some (parseGroupsFromUserInput big msg))"
    by (simp add: setGroupsFromText_def Let_def)
  have a: "validGroups (currentGroups u) \<longrightarrow> validGroups (currentGroups (addGroupsFromText big msg u))"
    using p by (simp add: addGroupsFromText_def Let_def currentGroups_def validGroups_add)
  have r: "validGroups (currentGroups u) \<longrightarrow> validGroups (currentGroups (removeGroupsFromText big msg u))"
    by (simp add: removeGroupsFromText_def Let_def currentGroups_def validGroups_remove)
  have l: "groups (normalizeUser (JObj kvs)) =
       (case map_of kvs (ascii ''groups'') of Some (JArr xs) \<Rightarrow> Some (stringsOf xs) | _ \<Rightarrow> None)"
    by (rule groups_normalizeUser)
  have k: "map_of kvs (ascii ''groups'') = Some (JArr (map JStr gs))
        \<longrightarrow> groups (normalizeUser (JObj kvs)) = Some gs"
    by (simp add: groups_normalizeUser stringsOf_strings)
  from p s a r l k show ?thesis by blast
qed

lemmas text_eval = normalizeMultilineText_def trim_def isWhiteSpace_def isDigit_def isSeparator_def
  extractGroupLinesOnly_def isGroupLine_def GRUPA_def matchTokenAt_def matchDottedAt_def matchScheduleAt_def
  parseGroupSchedulesFromText_def recordLine_def normalizeGroupId_def matchGroupId_def renderNumber_def
  digitsValue_def decDigits.simps headerLinesOf_def Let_def

lemmas groups_eval = parseGroupsFromUserInput_def pushGroup_def POSSIBLE_GROUPS_def

theorem subgroups_invariant_witness:
  "validGroups (currentGroups (addGroupsFromText (\<lambda>n. []) (ascii ''1,1; 3.2'')
     (defaultUser\<lparr>groups := Some [ascii ''3.2'']\<rparr>)))
   \<and> groups (normalizeUser (JObj [(ascii ''groups'', JArr (map JStr [ascii ''1.1'']))]))
       = Some [ascii ''1.1'']"
proof -
  have v: "validGroups (currentGroups (defaultUser\<lparr>groups := Some [ascii ''3.2'']\<rparr>))"
    by (simp add: validGroups_def currentGroups_def POSSIBLE_GROUPS_def ascii_def)
  have m: "map_of [(ascii ''groups'', JArr (map JStr [ascii ''1.1'']))] (ascii ''groups'')
      = Some (JArr (map JStr [ascii ''1.1'']))" by simp
  from subgroups_invariant [of "\<lambda>n. []" "ascii ''1,1; 3.2''" "defaultUser\<lparr>groups := Some [ascii ''3.2'']\<rparr>"
      "[(ascii ''groups'', JArr (map JStr [ascii ''1.1'']))]" "[ascii ''1.1'']"] v m
  show ?thesis by blast
qed

theorem subgroups_invariant_counterexample:
  "loadedGroups (readStateFromDisk (parsesTo storeWithBadGroups) (FileText [])) (ascii ''42'')
     = Some [ascii ''9.9'', ascii ''1.1'', ascii ''1.1'']
   \<and> \<not> validGroups [ascii ''9.9'', ascii ''1.1'', ascii ''1.1'']"
  by (simp add: loadedGroups_def readStateFromDisk_def readAndParse_def parsesTo_def
      storeWithBadGroups_def isObject_def getField_def normalizeStateShape_def objectEntries_def
      assignUser_def normalizeUser_def stringsOf_def validGroups_def ascii_def Let_def)

section \<open>Loading the store never fails\<close>
























section \<open>The previous subgroup text\<close>

lemma trim_leading_newline: "trim (10 # s) = trim s"
  by (simp add: trim_def)

lemma joinNL_Cons: "ls \<noteq> [] \<Longrightarrow> joinNL (l # ls) = l @ 10 # joinNL ls"
  by (cases ls) simp_all

lemma joinNL_not_Nil: "ls \<noteq> [] \<Longrightarrow> hd ls \<noteq> [] \<Longrightarrow> joinNL ls \<noteq> []"
  by (induction ls rule: joinNL.induct) simp_all

lemma hd_joinNL: "ls \<noteq> [] \<Longrightarrow> hd ls \<noteq> [] \<Longrightarrow> hd (joinNL ls) = hd (hd ls)"
  by (induction ls rule: joinNL.induct) simp_all

lemma joinNL_eq_Nil: "(joinNL ls = []) = (ls = [] \<or> ls = [[]])"
  by (induction ls rule: joinNL.induct) simp_all

lemma last_joinNL: "ls \<noteq> [] \<Longrightarrow> last ls \<noteq> [] \<Longrightarrow> last (joinNL ls) = last (last ls)"
  by (induction ls rule: joinNL.induct) (auto simp: joinNL_eq_Nil)

lemma isGroupLine_Nil [simp]: "\<not> isGroupLine []"
  by (simp add: isGroupLine_def GRUPA_def)

lemma normalize_good_lines:
  assumes ne: "ls \<noteq> []" and g: "\<forall>l\<in>set ls. goodLine l"
  shows "normalizeMultilineText (joinNL ls) = joinNL ls"
proof -
  from g have "\<forall>l\<in>set ls. l = [] \<or> goodLine l" by blast
  with ne have "normalizeMultilineText (joinNL ls) = joinNL (filter (\<lambda>l. l \<noteq> []) ls)"
    by (rule normalize_joinNL)
  with g show ?thesis by (simp add: filter_nonempty_good)
qed

lemma normalize_watchedText:
  assumes hs: "\<forall>h\<in>set hs. goodLine h" and ne: "sel \<noteq> []" and sel: "\<forall>l\<in>set sel. goodLine l"
  shows "normalizeMultilineText (watchedTextOf hs sel) = joinNL (hs @ sel)"
proof (cases "hs = []")
  case True
  have "watchedTextOf hs sel = trim (10 # joinNL sel)"
    using True ne by (simp add: watchedTextOf_def joinNL_Cons)
  also have "\<dots> = joinNL sel"
    using sel by (simp add: trim_leading_newline trim_joinNL_good)
  finally show ?thesis using True normalize_good_lines [OF ne sel] by simp
next
  case False
  let ?ls = "hs @ [] # sel"
  have lne: "?ls \<noteq> []" by simp
  have h: "hd ?ls \<noteq> [] \<and> \<not> isWhiteSpace (hd (hd ?ls))"
    using False hs by (cases hs) (auto simp: goodLine_def)
  have l: "last ?ls \<noteq> [] \<and> \<not> isWhiteSpace (last (last ?ls))"
    using ne sel by (auto simp: goodLine_def)
  have "trim (joinNL ?ls) = joinNL ?ls"
    using lne h l by (intro trim_id) (simp_all add: joinNL_not_Nil hd_joinNL last_joinNL del: hd_append2 last_appendR last.simps)
  then have w: "watchedTextOf hs sel = joinNL ?ls" by (simp add: watchedTextOf_def)
  have ge: "\<forall>l\<in>set ?ls. l = [] \<or> goodLine l" using hs sel by auto
  have f: "filter (\<lambda>l. l \<noteq> []) ?ls = hs @ sel"
    using hs sel by (simp add: filter_nonempty_good)
  show ?thesis unfolding w using normalize_joinNL [OF lne ge] f by simp
qed

lemma placeholders_are_group_lines:
  "\<forall>g\<in>set POSSIBLE_GROUPS.
     goodLine (placeholderToday g) \<and> isGroupLine (placeholderToday g)
     \<and> goodLine (placeholderTomorrow g) \<and> isGroupLine (placeholderTomorrow g)"
  by (simp add: POSSIBLE_GROUPS_def placeholderToday_def placeholderTomorrow_def
      PLACEHOLDER_PREFIX_def PLACEHOLDER_TODAY_def PLACEHOLDER_TOMORROW_def goodLine_def
      isGroupLine_def GRUPA_def matchTokenAt_def isWhiteSpace_def isDigit_def isSeparator_def Let_def)

text \<open>
  C6, as the code has it: from a stored watched text (header lines, a blank line, the
  rendered subgroup lines) the extraction returns exactly the rendered lines that match the
  pattern of a subgroup line, joined by newlines. Header lines that do not match it are left
  out; placeholder lines match it (they begin with the label and the id), so they are kept.
\<close>

theorem extractGroupLinesOnly_of_watchedText:
  assumes hs: "\<forall>h\<in>set headerLines. goodLine h \<and> \<not> isGroupLine h"
    and ne: "selectedLines \<noteq> []"
    and sel: "\<forall>l\<in>set selectedLines. goodLine l"
  shows "extractGroupLinesOnly (watchedTextOf headerLines selectedLines)
           = joinNL (filter isGroupLine selectedLines)
         \<and> (\<forall>g\<in>set POSSIBLE_GROUPS.
               isGroupLine (placeholderToday g) \<and> isGroupLine (placeholderTomorrow g))"
proof -
  from hs have hg: "\<forall>h\<in>set headerLines. goodLine h" by blast
  have n: "normalizeMultilineText (watchedTextOf headerLines selectedLines)
             = joinNL (headerLines @ selectedLines)"
    using hg ne sel by (rule normalize_watchedText)
  have all: "\<forall>l\<in>set (headerLines @ selectedLines). 10 \<notin> set l"
    using hg sel by (auto simp: goodLine_def)
  have s: "splitNL (joinNL (headerLines @ selectedLines)) = headerLines @ selectedLines"
    using ne all by (intro splitNL_joinNL) simp_all
  have f: "filter isGroupLine (headerLines @ selectedLines) = filter isGroupLine selectedLines"
    using hs by (simp add: filter_empty_conv)
  have g: "\<forall>l\<in>set (filter isGroupLine selectedLines). goodLine l" using sel by simp
  have "extractGroupLinesOnly (watchedTextOf headerLines selectedLines)
          = trim (joinNL (filter isGroupLine selectedLines))"
    by (simp only: extractGroupLinesOnly_def n s f)
  also have "\<dots> = joinNL (filter isGroupLine selectedLines)"
    using g by (rule trim_joinNL_good)
  finally show ?thesis using placeholders_are_group_lines by blast
qed

theorem extractGroupLinesOnly_of_watchedText_witness:
  "extractGroupLinesOnly (watchedTextOf [[72]] [placeholderToday (ascii ''1.1'')])
     = joinNL (filter isGroupLine [placeholderToday (ascii ''1.1'')])"
proof -
  have a: "\<forall>h\<in>set [[72]]. goodLine h \<and> \<not> isGroupLine h"
    by (simp add: goodLine_def isGroupLine_def GRUPA_def isWhiteSpace_def)
  have b: "[placeholderToday (ascii ''1.1'')] \<noteq> []" by simp
  have c: "\<forall>l\<in>set [placeholderToday (ascii ''1.1'')]. goodLine l"
    by (simp add: goodLine_def placeholderToday_def PLACEHOLDER_PREFIX_def PLACEHOLDER_TODAY_def
        isWhiteSpace_def ascii_def)
  from extractGroupLinesOnly_of_watchedText [OF a b c] show ?thesis by blast
qed

lemmas placeholder_eval = placeholderToday_def placeholderTomorrow_def PLACEHOLDER_PREFIX_def
  PLACEHOLDER_TODAY_def PLACEHOLDER_TOMORROW_def ascii_def

theorem extractGroupLinesOnly_counterexample:
  "extractGroupLinesOnly (watchedTextOf [[72]] [placeholderToday (ascii ''1.1'')])
     = placeholderToday (ascii ''1.1'')
   \<and> extractGroupLinesOnly (watchedTextOf [[72]] [placeholderToday (ascii ''1.1'')])
     \<noteq> joinNL (withoutPlaceholders [placeholderToday (ascii ''1.1'')])"
  by (simp add: watchedTextOf_def text_eval placeholder_eval withoutPlaceholders_def
      isPlaceholderLine_def POSSIBLE_GROUPS_def)

section \<open>Effects of the steps of a check\<close>

lemma sentMessages_Sent [simp]:
  "sentMessages (w\<lparr>events := events w @ [Sent c t]\<rparr>) = sentMessages w @ [t]"
  by (simp add: sentMessages_def)

lemma sentMessages_Persisted [simp]:
  "sentMessages (w\<lparr>events := events w @ [Persisted u]\<rparr>) = sentMessages w"
  by (simp add: sentMessages_def)

lemma sentMessages_setUser [simp]: "sentMessages (setUser f w) = sentMessages w"
  by (simp add: sentMessages_def setUser_def)

lemma sentMessages_startOf [simp]: "sentMessages (startOf u) = []"
  by (simp add: sentMessages_def startOf_def)

lemma usr_setUser [simp]: "usr (setUser f w) = f (usr w)"
  by (simp add: setUser_def)

lemma events_setUser [simp]: "events (setUser f w) = events w"
  by (simp add: setUser_def)

lemma usr_startOf [simp]: "usr (startOf u) = u"
  by (simp add: startOf_def)

lemma snd_write:
  "usr (snd (writeStateToDisk e s w)) = usr w"
  "sentMessages (snd (writeStateToDisk e s w)) = sentMessages w"
  by (simp_all add: writeStateToDisk_def split: option.splits)

lemma snd_send:
  "usr (snd (sendMessage e s c t w)) = usr w"
  "sentMessages (snd (sendMessage e s c t w))
     = sentMessages w @ (if envIoFailure e s = None then [t] else [])"
  by (simp_all add: sendMessage_def split: option.splits)

lemma snd_andThen: "snd (andThen r k) = (if fst r = None then snd (k (snd r)) else snd r)"
  by (simp add: andThen_def split: option.splits)

lemma write_ok:
  "ioSucceeds e \<Longrightarrow> writeStateToDisk e s w = (None, w\<lparr>events := events w @ [Persisted (usr w)]\<rparr>)"
  by (simp add: writeStateToDisk_def ioSucceeds_def)

lemma send_ok:
  "ioSucceeds e \<Longrightarrow> sendMessage e s c t w = (None, w\<lparr>events := events w @ [Sent c t]\<rparr>)"
  by (simp add: sendMessage_def ioSucceeds_def)

lemma andThen_ok [simp]: "andThen (None, w) k = k w"
  by (simp add: andThen_def)

section \<open>Headlines\<close>

lemma firstLine_notice: "h \<noteq> [] \<Longrightarrow> 10 \<notin> set h \<Longrightarrow> firstLine (notice h t l u) = h"
proof -
  assume h: "h \<noteq> []" "10 \<notin> set h"
  let ?rest = "filter (\<lambda>part. part \<noteq> [])
       [[32], if t \<noteq> [] then t else FALLBACK_TEXT, [], if u \<noteq> [] then l @ u else []]"
  have r: "?rest \<noteq> []" by simp
  have "notice h t l u = joinNL (h # ?rest)" using h by (simp add: notice_def)
  also have "\<dots> = h @ 10 # joinNL ?rest" using r by (rule joinNL_Cons)
  finally have n: "notice h t l u = h @ 10 # joinNL ?rest" .
  from h have "\<forall>c\<in>set h. c \<noteq> 10" by auto
  then have "takeWhile (\<lambda>c. c \<noteq> 10) (h @ 10 # joinNL ?rest) = h" by simp
  then show ?thesis by (simp only: firstLine_def n)
qed

lemmas headline_defs = HEAD_CHECKED_def HEAD_ROLLOVER_def HEAD_CHANGED_def
  HEAD_TOMORROW_APPEARED_def HEAD_TOMORROW_CHANGED_def

lemma firstLine_notices [simp]:
  "firstLine (notice HEAD_CHECKED t l u) = HEAD_CHECKED"
  "firstLine (notice HEAD_ROLLOVER t l u) = HEAD_ROLLOVER"
  "firstLine (notice HEAD_CHANGED t l u) = HEAD_CHANGED"
  "firstLine (notice HEAD_TOMORROW_APPEARED t l u) = HEAD_TOMORROW_APPEARED"
  "firstLine (notice HEAD_TOMORROW_CHANGED t l u) = HEAD_TOMORROW_CHANGED"
  by (rule firstLine_notice; simp add: headline_defs)+

lemma headlines_differ [simp]:
  "HEAD_CHECKED \<noteq> HEAD_TOMORROW_APPEARED" "HEAD_ROLLOVER \<noteq> HEAD_TOMORROW_APPEARED"
  "HEAD_CHANGED \<noteq> HEAD_TOMORROW_APPEARED" "HEAD_TOMORROW_CHANGED \<noteq> HEAD_TOMORROW_APPEARED"
  "HEAD_CHECKED \<noteq> HEAD_TOMORROW_CHANGED" "HEAD_ROLLOVER \<noteq> HEAD_TOMORROW_CHANGED"
  "HEAD_CHANGED \<noteq> HEAD_TOMORROW_CHANGED"
  by (simp_all add: headline_defs)

lemma today_not_tomorrow: "isTodayNotice m \<Longrightarrow> \<not> isTomorrowNotice m"
  by (auto simp: isTodayNotice_def isTomorrowNotice_def headline_defs)

lemma today_not_error: "isTodayNotice m \<Longrightarrow> \<not> isErrorReport m"
proof
  assume t: "isTodayNotice m" and e: "isErrorReport m"
  from e have "hd (firstLine m) = 10060 \<or> hd (firstLine m) = 1053"
  proof (unfold isErrorReport_def, elim disjE)
    assume "take (length ERROR_PREFIX) m = ERROR_PREFIX"
    then obtain r where "m = ERROR_PREFIX @ r" by (metis append_take_drop_id)
    then show ?thesis by (simp add: firstLine_def ERROR_PREFIX_def)
  next
    assume "m = MSG_NO_GROUPS"
    then show ?thesis by (simp add: firstLine_def MSG_NO_GROUPS_def)
  qed
  moreover from t have "hd (firstLine m) = 55357"
    by (auto simp: isTodayNotice_def headline_defs)
  ultimately show False by simp
qed

lemma error_not_appeared: "isErrorReport m \<Longrightarrow> \<not> isAppearedNotice m"
proof
  assume e: "isErrorReport m" and a: "isAppearedNotice m"
  from e have "hd (firstLine m) = 10060 \<or> hd (firstLine m) = 1053"
  proof (unfold isErrorReport_def, elim disjE)
    assume "take (length ERROR_PREFIX) m = ERROR_PREFIX"
    then obtain r where "m = ERROR_PREFIX @ r" by (metis append_take_drop_id)
    then show ?thesis by (simp add: firstLine_def ERROR_PREFIX_def)
  next
    assume "m = MSG_NO_GROUPS"
    then show ?thesis by (simp add: firstLine_def MSG_NO_GROUPS_def)
  qed
  moreover from a have "hd (firstLine m) = 55357"
    by (simp add: isAppearedNotice_def headline_defs)
  ultimately show False by simp
qed

section \<open>What each part of a check sends\<close>

lemma todaySection_sends:
  "\<exists>ms. sentMessages (snd (todaySection e c f td w)) = sentMessages w @ ms
        \<and> (\<forall>m\<in>set ms. isTodayNotice m)"
  by (simp add: todaySection_def Let_def snd_andThen snd_write snd_send isTodayNotice_def)

lemma todaySection_keeps_tomorrow:
  "lastLoeTomorrowStatus (usr (snd (todaySection e c f td w))) = lastLoeTomorrowStatus (usr w)"
  "lastLoeTomorrowWatchedText (usr (snd (todaySection e c f td w))) = lastLoeTomorrowWatchedText (usr w)"
  "groups (usr (snd (todaySection e c f td w))) = groups (usr w)"
  by (simp_all add: todaySection_def Let_def snd_andThen snd_write snd_send)

lemma tomorrowSection_sends_present:
  "lastLoeTomorrowStatus (usr w) = Some Present \<Longrightarrow>
     \<exists>ms. sentMessages (snd (tomorrowSection e c tmr w)) = sentMessages w @ ms
        \<and> (\<forall>m\<in>set ms. firstLine m = HEAD_TOMORROW_CHANGED)"
  by (cases tmr)
    (simp_all add: tomorrowSection_def Let_def newArray_def snd_andThen snd_write snd_send)

lemma catchBlock_sends:
  "\<exists>ms. sentMessages (snd (catchBlock e c f err w)) = sentMessages w @ ms
        \<and> (\<forall>m\<in>set ms. isErrorReport m)"
  by (simp add: catchBlock_def Let_def snd_andThen snd_write snd_send isErrorReport_def)


lemma andThen_continues: "fst r = None \<Longrightarrow> andThen r k = k (snd r)"
  by (simp add: andThen_def)

lemma andThen_stops: "fst r \<noteq> None \<Longrightarrow> andThen r k = r"
  by (cases "fst r") (simp_all add: andThen_def)

lemma checkOneChat_runs:
  "watching (usr w) \<or> f \<Longrightarrow> groups (usr w) = Some gs \<Longrightarrow> gs \<noteq> [] \<Longrightarrow>
     checkOneChat e c f w =
       (case tryBlock e c f w of
          (None, w') \<Rightarrow> (None, w')
        | (Some err, w') \<Rightarrow> catchBlock e c f err w')"
  by (auto simp: checkOneChat_def currentGroups_def)

lemma checkOneChat_without_groups:
  "watching (usr w) \<or> f \<Longrightarrow> groups (usr w) = None \<or> groups (usr w) = Some [] \<Longrightarrow>
     sentMessages (snd (checkOneChat e c f w))
       = sentMessages w @ (if f \<and> envIoFailure e WriteNoGroups = None \<and> envIoFailure e SendNoGroups = None
                           then [MSG_NO_GROUPS] else [])"
  by (auto simp: checkOneChat_def currentGroups_def Let_def andThen_def writeStateToDisk_def
      sendMessage_def sentMessages_def setUser_def split: option.splits)

lemma today_not_appeared: "isTodayNotice m \<Longrightarrow> \<not> isAppearedNotice m"
  by (auto simp: isTodayNotice_def isAppearedNotice_def headline_defs)

lemma changed_not_appeared: "firstLine m = HEAD_TOMORROW_CHANGED \<Longrightarrow> \<not> isAppearedNotice m"
  by (simp add: isAppearedNotice_def)

lemma tryBlock_no_appeared:
  assumes p: "lastLoeTomorrowStatus (usr w) = Some Present"
  shows "\<exists>ms. sentMessages (snd (tryBlock e c f w)) = sentMessages w @ ms
            \<and> (\<forall>m\<in>set ms. \<not> isAppearedNotice m)"
proof (cases "envFetch e")
  case (FetchFailed err)
  then show ?thesis by (simp add: tryBlock_def)
next
  case (Fetched today tmr)
  show ?thesis
  proof (cases today)
    case None
    with Fetched show ?thesis by (simp add: tryBlock_def)
  next
    case (Some td)
    let ?r = "todaySection e c f td w"
    obtain ms1 where ms1: "sentMessages (snd ?r) = sentMessages w @ ms1"
      "\<forall>m\<in>set ms1. isTodayNotice m"
      using todaySection_sends by blast
    have "lastLoeTomorrowStatus (usr (snd ?r)) = Some Present"
      using p by (simp add: todaySection_keeps_tomorrow)
    then obtain ms2 where ms2:
      "sentMessages (snd (tomorrowSection e c tmr (snd ?r))) = sentMessages (snd ?r) @ ms2"
      "\<forall>m\<in>set ms2. firstLine m = HEAD_TOMORROW_CHANGED"
      using tomorrowSection_sends_present by blast
    have t: "tryBlock e c f w = andThen ?r (tomorrowSection e c tmr)"
      using Fetched Some by (simp add: tryBlock_def)
    show ?thesis
    proof (cases "fst ?r = None")
      case True
      then have "sentMessages (snd (tryBlock e c f w)) = sentMessages w @ (ms1 @ ms2)"
        by (simp add: t andThen_continues ms1 ms2)
      moreover have "\<forall>m\<in>set (ms1 @ ms2). \<not> isAppearedNotice m"
        using ms1(2) ms2(2) by (auto dest: today_not_appeared changed_not_appeared)
      ultimately show ?thesis by blast
    next
      case False
      then have "andThen ?r (tomorrowSection e c tmr) = ?r" by (rule andThen_stops)
      then have "sentMessages (snd (tryBlock e c f w)) = sentMessages w @ ms1"
        by (simp only: t ms1)
      moreover have "\<forall>m\<in>set ms1. \<not> isAppearedNotice m"
        using ms1(2) by (auto dest: today_not_appeared)
      ultimately show ?thesis by blast
    qed
  qed
qed

lemma checkOneChat_no_appeared:
  assumes p: "lastLoeTomorrowStatus u = Some Present"
  shows "filter isAppearedNotice (sentMessages (snd (checkOneChat e c f (startOf u)))) = []"
proof -
  let ?w = "startOf u"
  have "\<forall>m\<in>set (sentMessages (snd (checkOneChat e c f ?w))). \<not> isAppearedNotice m"
  proof (cases "\<not> watching u \<and> \<not> f")
    case True
    then show ?thesis by (simp add: checkOneChat_def)
  next
    case False
    then have run: "watching (usr ?w) \<or> f" by simp
    show ?thesis
    proof (cases "groups u = None \<or> groups u = Some []")
      case True
      have "isErrorReport MSG_NO_GROUPS" by (simp add: isErrorReport_def)
      then have "\<not> isAppearedNotice MSG_NO_GROUPS" by (rule error_not_appeared)
      moreover from True have "groups (usr ?w) = None \<or> groups (usr ?w) = Some []" by simp
      ultimately show ?thesis
        by (simp add: checkOneChat_without_groups [OF run])
    next
      case False
      then obtain gs where gs: "groups (usr ?w) = Some gs" "gs \<noteq> []" by auto
      note r = checkOneChat_runs [OF run gs, of e c]
      obtain x w' where x: "tryBlock e c f ?w = (x, w')" by (cases "tryBlock e c f ?w")
      obtain ms1 where ms1: "sentMessages (snd (tryBlock e c f ?w)) = sentMessages ?w @ ms1"
        "\<forall>m\<in>set ms1. \<not> isAppearedNotice m"
        using tryBlock_no_appeared [of ?w e c f] p by auto
      from ms1 x have w': "sentMessages w' = ms1" by simp
      show ?thesis
      proof (cases x)
        case None
        with r x have "checkOneChat e c f ?w = (None, w')" by simp
        with ms1(2) w' show ?thesis by simp
      next
        case (Some err)
        with r x have c: "checkOneChat e c f ?w = catchBlock e c f err w'" by simp
        obtain ms2 where ms2: "sentMessages (snd (catchBlock e c f err w')) = sentMessages w' @ ms2"
          "\<forall>m\<in>set ms2. isErrorReport m"
          using catchBlock_sends by blast
        from ms2 c w' have "sentMessages (snd (checkOneChat e c f ?w)) = ms1 @ ms2" by simp
        with ms1(2) ms2(2) show ?thesis by (auto dest: error_not_appeared)
      qed
    qed
  qed
  then show ?thesis by (simp add: filter_empty_conv)
qed


section \<open>Checks whose writes and sends succeed\<close>

lemma todaySection_ok: "ioSucceeds e \<Longrightarrow> fst (todaySection e c f td w) = None"
  by (simp add: todaySection_def Let_def write_ok send_ok)

lemma tomorrowSection_ok: "ioSucceeds e \<Longrightarrow> fst (tomorrowSection e c tmr w) = None"
  by (cases tmr) (simp_all add: tomorrowSection_def Let_def newArray_def write_ok send_ok)

lemma tomorrowSection_sends:
  "\<exists>ms. sentMessages (snd (tomorrowSection e c tmr w)) = sentMessages w @ ms
        \<and> (\<forall>m\<in>set ms. isTomorrowNotice m)"
  by (cases tmr)
    (simp_all add: tomorrowSection_def Let_def newArray_def snd_andThen snd_write snd_send
      isTomorrowNotice_def)

lemma tomorrowSection_keeps_today:
  "lastLoeWatchedText (usr (snd (tomorrowSection e c tmr w))) = lastLoeWatchedText (usr w)"
  "lastLoeNotifiedAt (usr (snd (tomorrowSection e c tmr w))) = lastLoeNotifiedAt (usr w)"
  by (cases tmr; simp add: tomorrowSection_def Let_def newArray_def snd_andThen snd_write snd_send)+

lemma events_write: "\<exists>evs. events (snd (writeStateToDisk e s w)) = events w @ evs"
  by (simp add: writeStateToDisk_def split: option.splits)

lemma events_send: "\<exists>evs. events (snd (sendMessage e s c t w)) = events w @ evs"
  by (simp add: sendMessage_def split: option.splits)

lemma tomorrowSection_extends:
  "ioSucceeds e \<Longrightarrow> \<exists>evs. events (snd (tomorrowSection e c tmr w)) = events w @ evs"
  by (cases tmr) (simp_all add: tomorrowSection_def Let_def newArray_def write_ok send_ok)

lemma tomorrowSection_missing:
  assumes "ioSucceeds e"
  shows "sentMessages (snd (tomorrowSection e c None w)) = sentMessages w"
    and "lastLoeTomorrowStatus (usr (snd (tomorrowSection e c None w))) = Some Missing"
    and "events (snd (tomorrowSection e c None w))
           = events w @ [Persisted (usr (snd (tomorrowSection e c None w)))]"
  using assms by (simp_all add: tomorrowSection_def Let_def write_ok sentMessages_def)

lemma tomorrowSection_appears:
  assumes "ioSucceeds e"
    and "lastLoeTomorrowStatus (usr w) \<noteq> Some Present"
    and "hasAnyData (parseGroupSchedulesFromText (envBig e) (itemText tm)) (currentGroups (usr w))"
  shows "sentMessages (snd (tomorrowSection e c (Some tm) w))
           = sentMessages w @
             [notice HEAD_TOMORROW_APPEARED
                (watchedTextOf (headerLinesOf (itemText tm))
                   (selectLines (parseGroupSchedulesFromText (envBig e) (itemText tm))
                      placeholderTomorrow (currentGroups (usr w))))
                LINK_TOMORROW (imageUrl tm)]"
    and "lastLoeTomorrowStatus (usr (snd (tomorrowSection e c (Some tm) w))) = Some Present"
  using assms
  by (simp_all add: tomorrowSection_def Let_def newArray_def write_ok send_ok sentMessages_def
      currentGroups_def)

lemma todaySection_baseline:
  assumes "ioSucceeds e" and "lastLoeWatchedText (usr w) = None"
  shows "usr (snd (todaySection e c False td w))
           = (usr w)\<lparr>lastLoeCheckedAt := Some (iso (envNow e AtChecked)), lastLoeError := None,
                     lastLoeWatchedText :=
                       Some (watchedTextOf (headerLinesOf (itemText td))
                               (selectLines (parseGroupSchedulesFromText (envBig e) (itemText td))
                                  placeholderToday (currentGroups (usr w))))\<rparr>"
    and "events (snd (todaySection e c False td w))
           = events w @ [Persisted (usr (snd (todaySection e c False td w)))]"
    and "sentMessages (snd (todaySection e c False td w)) = sentMessages w"
    and "sentMessages (snd (todaySection e c True td w))
           = sentMessages w @
             [notice HEAD_CHECKED
                (watchedTextOf (headerLinesOf (itemText td))
                   (selectLines (parseGroupSchedulesFromText (envBig e) (itemText td))
                      placeholderToday (currentGroups (usr w))))
                LINK_BASELINE (imageUrl td)]"
  using assms
  by (simp_all add: todaySection_def Let_def previousGroupsText_def write_ok send_ok
      sentMessages_def currentGroups_def)

lemma checkOneChat_succeeds:
  assumes run: "watching (usr w) \<or> f"
    and gs: "groups (usr w) = Some gs" "gs \<noteq> []"
    and fetch: "envFetch e = Fetched (Some td) tmr"
    and io: "ioSucceeds e"
  shows "checkOneChat e c f w = (None, snd (tomorrowSection e c tmr (snd (todaySection e c f td w))))"
proof -
  have t: "tryBlock e c f w = tomorrowSection e c tmr (snd (todaySection e c f td w))"
    using fetch io by (simp add: tryBlock_def andThen_continues todaySection_ok)
  have "fst (tryBlock e c f w) = None" unfolding t using io by (rule tomorrowSection_ok)
  then have "tryBlock e c f w = (None, snd (tryBlock e c f w))"
    by (cases "tryBlock e c f w") simp
  then show ?thesis
    using checkOneChat_runs [OF run gs, of e c] t by (simp split: prod.splits)
qed


lemma tomorrow_not_today: "isTomorrowNotice m \<Longrightarrow> \<not> isTodayNotice m"
  using today_not_tomorrow by blast

lemma appeared_notice [simp]: "isAppearedNotice (notice HEAD_TOMORROW_APPEARED t l u)"
  by (simp add: isAppearedNotice_def)

section \<open>The first check of a subscriber\<close>

text \<open>
  C3, as the code has it: for a watching subscriber with subgroups and no stored baseline
  for today, a check without \<^verbatim>\<open>forceCheck\<close> whose fetch, writes and sends succeed stores
  and persists today's baseline, leaves \<^verbatim>\<open>lastLoeNotifiedAt\<close> as it was and sends no message
  about today: whatever it sends is a message about tomorrow's schedule, and nothing at all
  when tomorrow's schedule is absent. With \<^verbatim>\<open>forceCheck\<close> the first message sent is the
  one about today.
\<close>

theorem first_check_silent_for_today:
  assumes w: "watching u"
    and gs: "groups u = Some gs" "gs \<noteq> []"
    and fetch: "envFetch e = Fetched (Some td) tmr"
    and io: "ioSucceeds e"
    and fresh: "lastLoeWatchedText u = None"
  shows "lastLoeWatchedText (usr (snd (checkOneChat e chatId False (startOf u))))
           = Some (watchedTextOf (headerLinesOf (itemText td))
                     (selectLines (parseGroupSchedulesFromText (envBig e) (itemText td))
                        placeholderToday gs))
         \<and> (\<exists>u1 evs. events (snd (checkOneChat e chatId False (startOf u))) = Persisted u1 # evs
               \<and> lastLoeWatchedText u1
                   = Some (watchedTextOf (headerLinesOf (itemText td))
                             (selectLines (parseGroupSchedulesFromText (envBig e) (itemText td))
                                placeholderToday gs)))
         \<and> lastLoeNotifiedAt (usr (snd (checkOneChat e chatId False (startOf u))))
             = lastLoeNotifiedAt u
         \<and> (\<forall>m\<in>set (sentMessages (snd (checkOneChat e chatId False (startOf u)))).
               isTomorrowNotice m \<and> \<not> isTodayNotice m)
         \<and> (tmr = None \<longrightarrow> sentMessages (snd (checkOneChat e chatId False (startOf u))) = [])
         \<and> (\<exists>ms. sentMessages (snd (checkOneChat e chatId True (startOf u)))
                    = notice HEAD_CHECKED
                        (watchedTextOf (headerLinesOf (itemText td))
                           (selectLines (parseGroupSchedulesFromText (envBig e) (itemText td))
                              placeholderToday gs))
                        LINK_BASELINE (imageUrl td) # ms)"
proof -
  let ?wt = "watchedTextOf (headerLinesOf (itemText td))
               (selectLines (parseGroupSchedulesFromText (envBig e) (itemText td))
                  placeholderToday gs)"
  let ?s = "startOf u"
  let ?W = "snd (todaySection e chatId False td ?s)"
  let ?F = "snd (todaySection e chatId True td ?s)"
  have cg: "currentGroups (usr ?s) = gs" using gs by (simp add: currentGroups_def)
  have fr: "lastLoeWatchedText (usr ?s) = None" using fresh by simp
  note b = todaySection_baseline [OF io fr, of chatId td, unfolded cg]
  have r: "checkOneChat e chatId False ?s = (None, snd (tomorrowSection e chatId tmr ?W))"
    using w gs fetch io by (intro checkOneChat_succeeds) simp_all
  have rf: "checkOneChat e chatId True ?s = (None, snd (tomorrowSection e chatId tmr ?F))"
    using gs fetch io by (intro checkOneChat_succeeds) simp_all
  have c1: "lastLoeWatchedText (usr (snd (checkOneChat e chatId False ?s))) = Some ?wt"
    by (simp add: r tomorrowSection_keeps_today b(1))
  obtain evs where evs: "events (snd (tomorrowSection e chatId tmr ?W)) = events ?W @ evs"
    using tomorrowSection_extends [OF io] by blast
  have "events ?W = [Persisted (usr ?W)]" using b(2) by (simp add: startOf_def)
  with evs have "events (snd (checkOneChat e chatId False ?s)) = Persisted (usr ?W) # evs"
    by (simp add: r)
  moreover have "lastLoeWatchedText (usr ?W) = Some ?wt" by (simp add: b(1))
  ultimately have c2: "\<exists>u1 evs. events (snd (checkOneChat e chatId False ?s)) = Persisted u1 # evs
               \<and> lastLoeWatchedText u1 = Some ?wt" by blast
  have c3: "lastLoeNotifiedAt (usr (snd (checkOneChat e chatId False ?s))) = lastLoeNotifiedAt u"
    by (simp add: r tomorrowSection_keeps_today b(1))
  obtain ms where ms: "sentMessages (snd (tomorrowSection e chatId tmr ?W)) = sentMessages ?W @ ms"
    "\<forall>m\<in>set ms. isTomorrowNotice m"
    using tomorrowSection_sends by blast
  have sw: "sentMessages ?W = []" using b(3) by simp
  have c4: "\<forall>m\<in>set (sentMessages (snd (checkOneChat e chatId False ?s))).
               isTomorrowNotice m \<and> \<not> isTodayNotice m"
    using ms sw by (simp add: r tomorrow_not_today)
  have c5: "tmr = None \<longrightarrow> sentMessages (snd (checkOneChat e chatId False ?s)) = []"
    using sw by (simp add: r tomorrowSection_missing(1) [OF io])
  obtain ms' where ms': "sentMessages (snd (tomorrowSection e chatId tmr ?F)) = sentMessages ?F @ ms'"
    using tomorrowSection_sends by blast
  have "sentMessages ?F = [notice HEAD_CHECKED ?wt LINK_BASELINE (imageUrl td)]"
    using b(4) by simp
  with ms' have c6: "\<exists>ms. sentMessages (snd (checkOneChat e chatId True ?s))
                    = notice HEAD_CHECKED ?wt LINK_BASELINE (imageUrl td) # ms"
    by (simp add: rf)
  from c1 c2 c3 c4 c5 c6 show ?thesis by blast
qed


lemmas check_eval = checkOneChat_def tryBlock_def catchBlock_def todaySection_def tomorrowSection_def
  andThen_def writeStateToDisk_def sendMessage_def setUser_def isNotifiedYesterday_def hasAnyData_def
  selectLines_def watchedTextOf_def watchedGroupsTextOf_def previousGroupsText_def newArray_def
  strictlyUnequal_def currentGroups_def sentMessages_def persistedRecords_def startOf_def

lemmas sample_eval = sampleEnv_def sampleNow_def sampleParseDate_def noFailure_def sampleClock_def
  sampleBig_def lineA_def lineB_def scheduleA_def scheduleB_def storedA_def newSubscriber_def
  settledSubscriber_def defaultUser_def ascii_def

lemma sampleEnv_succeeds: "ioSucceeds (sampleEnv f)"
  by (simp add: ioSucceeds_def sampleEnv_def noFailure_def)

theorem first_check_silent_for_today_witness:
  "lastLoeWatchedText (usr (snd (checkOneChat (sampleEnv (Fetched (Some scheduleA) None))
      (ascii ''42'') False (startOf newSubscriber)))) = Some storedA
   \<and> sentMessages (snd (checkOneChat (sampleEnv (Fetched (Some scheduleA) None))
      (ascii ''42'') False (startOf newSubscriber))) = []"
proof -
  have a: "watching newSubscriber" by (simp add: newSubscriber_def)
  have b: "groups newSubscriber = Some [ascii ''1.1'']" by (simp add: newSubscriber_def)
  have c: "[ascii ''1.1''] \<noteq> []" by simp
  have d: "envFetch (sampleEnv (Fetched (Some scheduleA) None)) = Fetched (Some scheduleA) None"
    by (simp add: sampleEnv_def)
  have f: "lastLoeWatchedText newSubscriber = None" by (simp add: newSubscriber_def defaultUser_def)
  have t: "watchedTextOf (headerLinesOf (itemText scheduleA))
             (selectLines (parseGroupSchedulesFromText
                (envBig (sampleEnv (Fetched (Some scheduleA) None))) (itemText scheduleA))
                placeholderToday [ascii ''1.1'']) = storedA"
    by (simp add: watchedTextOf_def selectLines_def sample_eval text_eval)
  from first_check_silent_for_today [OF a b c d sampleEnv_succeeds f, of "ascii ''42''"]
  show ?thesis unfolding t by blast
qed

theorem first_check_counterexample:
  "watching newSubscriber \<and> lastLoeWatchedText newSubscriber = None
   \<and> sentMessages (snd (checkOneChat (sampleEnv (Fetched (Some scheduleA) (Some scheduleA)))
        (ascii ''42'') False (startOf newSubscriber)))
       = [notice HEAD_TOMORROW_APPEARED storedA LINK_TOMORROW []]"
  by (simp add: check_eval sample_eval text_eval placeholder_eval)

section \<open>The appearance of tomorrow's schedule\<close>

lemma tomorrowSection_present:
  "lastLoeTomorrowStatus (usr (snd (tomorrowSection e c (Some tm) w))) = Some Present"
  by (simp add: tomorrowSection_def Let_def newArray_def snd_andThen snd_write snd_send)

lemma catchBlock_keeps_tomorrow:
  "lastLoeTomorrowStatus (usr (snd (catchBlock e c f err w))) = lastLoeTomorrowStatus (usr w)"
  by (simp add: catchBlock_def Let_def snd_andThen snd_write snd_send)

lemma tryBlock_stays_present:
  assumes p: "lastLoeTomorrowStatus (usr w) = Some Present"
    and t: "\<forall>td. envFetch e \<noteq> Fetched td None"
  shows "lastLoeTomorrowStatus (usr (snd (tryBlock e c f w))) = Some Present"
proof (cases "envFetch e")
  case (FetchFailed err)
  with p show ?thesis by (simp add: tryBlock_def)
next
  case (Fetched today tmr)
  with t obtain tm where tm: "tmr = Some tm" by (cases tmr) auto
  show ?thesis
  proof (cases today)
    case None
    with Fetched p show ?thesis by (simp add: tryBlock_def)
  next
    case (Some td)
    with Fetched tm p show ?thesis
      by (simp add: tryBlock_def snd_andThen tomorrowSection_present todaySection_keeps_tomorrow)
  qed
qed

lemma checkOneChat_without_groups_status:
  "groups (usr w) = None \<or> currentGroups (usr w) = [] \<Longrightarrow>
     lastLoeTomorrowStatus (usr (snd (checkOneChat e c f w))) = lastLoeTomorrowStatus (usr w)"
  by (simp add: checkOneChat_def Let_def snd_andThen snd_write snd_send)

lemma checkOneChat_stays_present:
  assumes p: "lastLoeTomorrowStatus (usr w) = Some Present"
    and t: "\<forall>td. envFetch e \<noteq> Fetched td None"
  shows "lastLoeTomorrowStatus (usr (snd (checkOneChat e c f w))) = Some Present"
proof (cases "\<not> watching (usr w) \<and> \<not> f")
  case True
  with p show ?thesis by (simp add: checkOneChat_def)
next
  case False
  then have run: "watching (usr w) \<or> f" by simp
  show ?thesis
  proof (cases "groups (usr w) = None \<or> currentGroups (usr w) = []")
    case True
    then show ?thesis using p by (simp only: checkOneChat_without_groups_status)
  next
    case False
    then obtain gs where gs: "groups (usr w) = Some gs" "gs \<noteq> []"
      by (auto simp: currentGroups_def)
    note r = checkOneChat_runs [OF run gs, of e c]
    note tb = tryBlock_stays_present [OF p t, of c f]
    obtain x w' where x: "tryBlock e c f w = (x, w')" by (cases "tryBlock e c f w")
    with tb have w': "lastLoeTomorrowStatus (usr w') = Some Present" by simp
    show ?thesis
    proof (cases x)
      case None
      with r x have "checkOneChat e c f w = (None, w')" by simp
      with w' show ?thesis by simp
    next
      case (Some err)
      with r x have "checkOneChat e c f w = catchBlock e c f err w'" by simp
      with w' show ?thesis by (simp add: catchBlock_keeps_tomorrow)
    qed
  qed
qed

lemma checkOneChat_sends_present:
  assumes p: "lastLoeTomorrowStatus (usr w) = Some Present"
  shows "\<exists>ms. sentMessages (snd (checkOneChat e c f w)) = sentMessages w @ ms
            \<and> (\<forall>m\<in>set ms. \<not> isAppearedNotice m)"
proof (cases "\<not> watching (usr w) \<and> \<not> f")
  case True
  then show ?thesis by (simp add: checkOneChat_def)
next
  case False
  then have run: "watching (usr w) \<or> f" by simp
  show ?thesis
  proof (cases "groups (usr w) = None \<or> groups (usr w) = Some []")
    case True
    have "isErrorReport MSG_NO_GROUPS" by (simp add: isErrorReport_def)
    then have "\<not> isAppearedNotice MSG_NO_GROUPS" by (rule error_not_appeared)
    then show ?thesis by (simp add: checkOneChat_without_groups [OF run True])
  next
    case False
    then obtain gs where gs: "groups (usr w) = Some gs" "gs \<noteq> []" by auto
    note r = checkOneChat_runs [OF run gs, of e c]
    obtain x w' where x: "tryBlock e c f w = (x, w')" by (cases "tryBlock e c f w")
    obtain ms1 where ms1: "sentMessages (snd (tryBlock e c f w)) = sentMessages w @ ms1"
      "\<forall>m\<in>set ms1. \<not> isAppearedNotice m"
      using tryBlock_no_appeared [OF p, of e c f] by auto
    from ms1 x have w': "sentMessages w' = sentMessages w @ ms1" by simp
    show ?thesis
    proof (cases x)
      case None
      with r x have "checkOneChat e c f w = (None, w')" by simp
      with ms1(2) w' show ?thesis by simp
    next
      case (Some err)
      with r x have c: "checkOneChat e c f w = catchBlock e c f err w'" by simp
      obtain ms2 where ms2: "sentMessages (snd (catchBlock e c f err w')) = sentMessages w' @ ms2"
        "\<forall>m\<in>set ms2. isErrorReport m"
        using catchBlock_sends by blast
      from ms2 c w' have "sentMessages (snd (checkOneChat e c f w)) = sentMessages w @ (ms1 @ ms2)"
        by simp
      moreover from ms1(2) ms2(2) have "\<forall>m\<in>set (ms1 @ ms2). \<not> isAppearedNotice m"
        by (auto dest: error_not_appeared)
      ultimately show ?thesis by blast
    qed
  qed
qed

lemma pollRun_stays_present:
  "lastLoeTomorrowStatus (usr w) = Some Present \<Longrightarrow> tomorrowNeverAbsent ps \<Longrightarrow>
     lastLoeTomorrowStatus (usr (pollRun c ps w)) = Some Present
     \<and> filter isAppearedNotice (sentMessages (pollRun c ps w))
         = filter isAppearedNotice (sentMessages w)"
proof (induction ps arbitrary: w)
  case Nil
  then show ?case by simp
next
  case (Cons p ps)
  let ?w = "snd (checkOneChat (fst p) c (snd p) w)"
  from Cons.prems(2) have t: "\<forall>td. envFetch (fst p) \<noteq> Fetched td None"
    and rest: "tomorrowNeverAbsent ps"
    by (auto simp: tomorrowNeverAbsent_def split: fetched.splits)
  have s: "lastLoeTomorrowStatus (usr ?w) = Some Present"
    using Cons.prems(1) t by (rule checkOneChat_stays_present)
  obtain ms where ms: "sentMessages ?w = sentMessages w @ ms" "\<forall>m\<in>set ms. \<not> isAppearedNotice m"
    using checkOneChat_sends_present [OF Cons.prems(1)] by blast
  from ms have "filter isAppearedNotice (sentMessages ?w) = filter isAppearedNotice (sentMessages w)"
    by (simp add: filter_empty_conv)
  with Cons.IH [OF s rest] show ?case by simp
qed

lemma tomorrowSection_nodata:
  assumes "\<not> hasAnyData (parseGroupSchedulesFromText (envBig e) (itemText tm)) (currentGroups (usr w))"
  shows "sentMessages (snd (tomorrowSection e c (Some tm) w)) = sentMessages w"
    and "lastLoeTomorrowStatus (usr (snd (tomorrowSection e c (Some tm) w))) = Some Present"
  using assms
  by (simp_all add: tomorrowSection_def Let_def newArray_def snd_write currentGroups_def)

lemma isNotifiedYesterday_checked:
  "isNotifiedYesterday e (u\<lparr>lastLoeCheckedAt := a, lastLoeError := b\<rparr>) = isNotifiedYesterday e u"
  by (simp add: isNotifiedYesterday_def)

lemma todaySection_silent:
  assumes "todayIsSilent e f td (usr w)"
  shows "sentMessages (snd (todaySection e c f td w)) = sentMessages w"
proof -
  from assms have f: "\<not> f" by (simp add: todayIsSilent_def)
  from assms consider
      (fresh) "previousGroupsText (lastLoeWatchedText (usr w)) = None
               \<or> previousGroupsText (lastLoeWatchedText (usr w)) = Some []"
    | (same) "previousGroupsText (lastLoeWatchedText (usr w)) \<noteq> None"
        "previousGroupsText (lastLoeWatchedText (usr w)) \<noteq> Some []"
        "previousGroupsText (lastLoeWatchedText (usr w))
              = Some (watchedGroupsTextOf
                        (selectLines (parseGroupSchedulesFromText (envBig e) (itemText td))
                           placeholderToday (currentGroups (usr w))))"
        "\<not> isNotifiedYesterday e (usr w)"
    unfolding todayIsSilent_def by blast
  then show ?thesis
  proof cases
    case fresh
    with f show ?thesis
      by (simp add: todaySection_def Let_def snd_andThen snd_write snd_send)
  next
    case same
    with f show ?thesis
      by (simp add: todaySection_def Let_def snd_andThen snd_write snd_send
          isNotifiedYesterday_checked)
  qed
qed

text \<open>
  C5, as the code has it: in a check whose fetch, writes and sends succeed, for a
  subscriber with subgroups who is watching (or with \<^verbatim>\<open>forceCheck\<close>):
  when the stored status is not \<^verbatim>\<open>present\<close> and tomorrow's schedule is there with a line
  for a tracked subgroup, the check sends the message that the schedule has appeared exactly
  once and stores the status \<^verbatim>\<open>present\<close>; and in every run of later checks, whatever they
  fetch, write and send, as long as none of them finds tomorrow's schedule absent, the status
  stays \<^verbatim>\<open>present\<close> and that message is not sent again;
  when the stored status is \<^verbatim>\<open>present\<close>, the check does not send it, and leaves the status
  \<^verbatim>\<open>present\<close> if tomorrow's schedule is there;
  when tomorrow's schedule is absent, the check ends without exception with the status
  \<^verbatim>\<open>missing\<close>, its last action is the write of that record, and it sends no message about
  tomorrow and no error report: what it sends is what its today section sends, and nothing
  at all when no rule of the today section asks for a message;
  when tomorrow's schedule is there without a line for any tracked subgroup, the check stores
  the status \<^verbatim>\<open>present\<close> and sends no message about tomorrow either.
\<close>

theorem tomorrow_appearance:
  assumes run: "watching u \<or> forceCheck"
    and gs: "groups u = Some gs" "gs \<noteq> []"
    and fetch: "envFetch e = Fetched (Some td) tmr"
    and io: "ioSucceeds e"
  shows "(\<forall>tm. tmr = Some tm
             \<and> hasAnyData (parseGroupSchedulesFromText (envBig e) (itemText tm)) gs
             \<and> lastLoeTomorrowStatus u \<noteq> Some Present
           \<longrightarrow> filter isAppearedNotice
                 (sentMessages (snd (checkOneChat e chatId forceCheck (startOf u))))
               = [notice HEAD_TOMORROW_APPEARED
                    (watchedTextOf (headerLinesOf (itemText tm))
                       (selectLines (parseGroupSchedulesFromText (envBig e) (itemText tm))
                          placeholderTomorrow gs))
                    LINK_TOMORROW (imageUrl tm)]
             \<and> lastLoeTomorrowStatus (usr (snd (checkOneChat e chatId forceCheck (startOf u))))
                 = Some Present
             \<and> (\<forall>e' c' f'. filter isAppearedNotice
                   (sentMessages (snd (checkOneChat e' c' f'
                      (startOf (usr (snd (checkOneChat e chatId forceCheck (startOf u))))))))
                 = [])
             \<and> (\<forall>ps. tomorrowNeverAbsent ps
                  \<longrightarrow> filter isAppearedNotice
                        (sentMessages (pollRun chatId ps
                           (snd (checkOneChat e chatId forceCheck (startOf u)))))
                      = [notice HEAD_TOMORROW_APPEARED
                           (watchedTextOf (headerLinesOf (itemText tm))
                              (selectLines (parseGroupSchedulesFromText (envBig e) (itemText tm))
                                 placeholderTomorrow gs))
                           LINK_TOMORROW (imageUrl tm)]
                    \<and> lastLoeTomorrowStatus
                        (usr (pollRun chatId ps
                           (snd (checkOneChat e chatId forceCheck (startOf u)))))
                      = Some Present))
         \<and> (lastLoeTomorrowStatus u = Some Present
             \<longrightarrow> filter isAppearedNotice
                   (sentMessages (snd (checkOneChat e chatId forceCheck (startOf u)))) = []
               \<and> (tmr \<noteq> None
                   \<longrightarrow> lastLoeTomorrowStatus
                         (usr (snd (checkOneChat e chatId forceCheck (startOf u))))
                       = Some Present))
         \<and> (tmr = None
             \<longrightarrow> fst (checkOneChat e chatId forceCheck (startOf u)) = None
               \<and> lastLoeTomorrowStatus (usr (snd (checkOneChat e chatId forceCheck (startOf u))))
                   = Some Missing
               \<and> events (snd (checkOneChat e chatId forceCheck (startOf u))) \<noteq> []
               \<and> last (events (snd (checkOneChat e chatId forceCheck (startOf u))))
                   = Persisted (usr (snd (checkOneChat e chatId forceCheck (startOf u))))
               \<and> (\<forall>m\<in>set (sentMessages (snd (checkOneChat e chatId forceCheck (startOf u)))).
                     isTodayNotice m \<and> \<not> isTomorrowNotice m \<and> \<not> isErrorReport m)
               \<and> sentMessages (snd (checkOneChat e chatId forceCheck (startOf u)))
                   = sentMessages (snd (todaySection e chatId forceCheck td (startOf u)))
               \<and> (todayIsSilent e forceCheck td u
                   \<longrightarrow> sentMessages (snd (checkOneChat e chatId forceCheck (startOf u))) = []))
         \<and> (\<forall>tm. tmr = Some tm
                \<and> \<not> hasAnyData (parseGroupSchedulesFromText (envBig e) (itemText tm)) gs
              \<longrightarrow> sentMessages (snd (checkOneChat e chatId forceCheck (startOf u)))
                    = sentMessages (snd (todaySection e chatId forceCheck td (startOf u)))
                \<and> lastLoeTomorrowStatus
                      (usr (snd (checkOneChat e chatId forceCheck (startOf u))))
                    = Some Present)"
proof -
  let ?s = "startOf u"
  let ?W = "snd (todaySection e chatId forceCheck td ?s)"
  let ?r = "checkOneChat e chatId forceCheck ?s"
  have r: "?r = (None, snd (tomorrowSection e chatId tmr ?W))"
    using run gs fetch io by (intro checkOneChat_succeeds) simp_all
  obtain ms1 where ms1: "sentMessages ?W = ms1" "\<forall>m\<in>set ms1. isTodayNotice m"
    using todaySection_sends [of e chatId forceCheck td ?s] by auto
  have st: "lastLoeTomorrowStatus (usr ?W) = lastLoeTomorrowStatus u"
    by (simp add: todaySection_keeps_tomorrow)
  have cg: "currentGroups (usr ?W) = gs"
    using gs by (simp add: currentGroups_def todaySection_keeps_tomorrow)
  have first: "\<forall>tm. tmr = Some tm
             \<and> hasAnyData (parseGroupSchedulesFromText (envBig e) (itemText tm)) gs
             \<and> lastLoeTomorrowStatus u \<noteq> Some Present
           \<longrightarrow> filter isAppearedNotice (sentMessages (snd ?r))
               = [notice HEAD_TOMORROW_APPEARED
                    (watchedTextOf (headerLinesOf (itemText tm))
                       (selectLines (parseGroupSchedulesFromText (envBig e) (itemText tm))
                          placeholderTomorrow gs))
                    LINK_TOMORROW (imageUrl tm)]
             \<and> lastLoeTomorrowStatus (usr (snd ?r)) = Some Present
             \<and> (\<forall>e' c' f'. filter isAppearedNotice
                   (sentMessages (snd (checkOneChat e' c' f' (startOf (usr (snd ?r)))))) = [])
             \<and> (\<forall>ps. tomorrowNeverAbsent ps
                  \<longrightarrow> filter isAppearedNotice (sentMessages (pollRun chatId ps (snd ?r)))
                      = [notice HEAD_TOMORROW_APPEARED
                           (watchedTextOf (headerLinesOf (itemText tm))
                              (selectLines (parseGroupSchedulesFromText (envBig e) (itemText tm))
                                 placeholderTomorrow gs))
                           LINK_TOMORROW (imageUrl tm)]
                    \<and> lastLoeTomorrowStatus (usr (pollRun chatId ps (snd ?r))) = Some Present)"
  proof (intro allI impI, elim conjE)
    fix tm
    assume tm: "tmr = Some tm"
      and d: "hasAnyData (parseGroupSchedulesFromText (envBig e) (itemText tm)) gs"
      and n: "lastLoeTomorrowStatus u \<noteq> Some Present"
    let ?n = "notice HEAD_TOMORROW_APPEARED
                    (watchedTextOf (headerLinesOf (itemText tm))
                       (selectLines (parseGroupSchedulesFromText (envBig e) (itemText tm))
                          placeholderTomorrow gs))
                    LINK_TOMORROW (imageUrl tm)"
    from n st have n': "lastLoeTomorrowStatus (usr ?W) \<noteq> Some Present" by simp
    from d cg have d': "hasAnyData (parseGroupSchedulesFromText (envBig e) (itemText tm))
        (currentGroups (usr ?W))" by simp
    note a = tomorrowSection_appears [OF io n' d', of chatId, unfolded cg]
    have "filter isAppearedNotice ms1 = []"
      using ms1(2) by (auto simp: filter_empty_conv dest: today_not_appeared)
    then have x: "filter isAppearedNotice (sentMessages (snd ?r)) = [?n]"
      by (simp add: r tm a(1) ms1(1))
    have y: "lastLoeTomorrowStatus (usr (snd ?r)) = Some Present"
      by (simp add: r tm a(2))
    from y have z: "\<forall>e' c' f'. filter isAppearedNotice
                   (sentMessages (snd (checkOneChat e' c' f' (startOf (usr (snd ?r)))))) = []"
      by (simp add: checkOneChat_no_appeared)
    have v: "\<forall>ps. tomorrowNeverAbsent ps
                  \<longrightarrow> filter isAppearedNotice (sentMessages (pollRun chatId ps (snd ?r))) = [?n]
                    \<and> lastLoeTomorrowStatus (usr (pollRun chatId ps (snd ?r))) = Some Present"
      using pollRun_stays_present [OF y, of _ chatId] x by simp
    from x y z v show "filter isAppearedNotice (sentMessages (snd ?r)) = [?n]
             \<and> lastLoeTomorrowStatus (usr (snd ?r)) = Some Present
             \<and> (\<forall>e' c' f'. filter isAppearedNotice
                   (sentMessages (snd (checkOneChat e' c' f' (startOf (usr (snd ?r)))))) = [])
             \<and> (\<forall>ps. tomorrowNeverAbsent ps
                  \<longrightarrow> filter isAppearedNotice (sentMessages (pollRun chatId ps (snd ?r))) = [?n]
                    \<and> lastLoeTomorrowStatus (usr (pollRun chatId ps (snd ?r))) = Some Present)"
      by (intro conjI)
  qed
  have second: "lastLoeTomorrowStatus u = Some Present
             \<longrightarrow> filter isAppearedNotice (sentMessages (snd ?r)) = []
               \<and> (tmr \<noteq> None \<longrightarrow> lastLoeTomorrowStatus (usr (snd ?r)) = Some Present)"
  proof (intro impI conjI)
    assume "lastLoeTomorrowStatus u = Some Present"
    then show "filter isAppearedNotice (sentMessages (snd ?r)) = []"
      by (rule checkOneChat_no_appeared)
  next
    assume "tmr \<noteq> None"
    then obtain tm where "tmr = Some tm" by auto
    then show "lastLoeTomorrowStatus (usr (snd ?r)) = Some Present"
      by (simp add: r tomorrowSection_present)
  qed
  have third: "tmr = None
             \<longrightarrow> fst ?r = None
               \<and> lastLoeTomorrowStatus (usr (snd ?r)) = Some Missing
               \<and> events (snd ?r) \<noteq> []
               \<and> last (events (snd ?r)) = Persisted (usr (snd ?r))
               \<and> (\<forall>m\<in>set (sentMessages (snd ?r)).
                     isTodayNotice m \<and> \<not> isTomorrowNotice m \<and> \<not> isErrorReport m)
               \<and> sentMessages (snd ?r) = sentMessages ?W
               \<and> (todayIsSilent e forceCheck td u \<longrightarrow> sentMessages (snd ?r) = [])"
  proof
    assume none: "tmr = None"
    note m = tomorrowSection_missing [OF io, of chatId ?W]
    have "events (snd ?r) = events ?W @ [Persisted (usr (snd ?r))]"
      using m(3) by (simp add: r none)
    then have ev: "events (snd ?r) \<noteq> [] \<and> last (events (snd ?r)) = Persisted (usr (snd ?r))"
      by (metis snoc_eq_iff_butlast)
    have sent: "\<forall>m\<in>set (sentMessages (snd ?r)).
                     isTodayNotice m \<and> \<not> isTomorrowNotice m \<and> \<not> isErrorReport m"
      using ms1 by (simp add: r none m(1) today_not_tomorrow today_not_error)
    have same: "sentMessages (snd ?r) = sentMessages ?W" by (simp add: r none m(1))
    have silent: "todayIsSilent e forceCheck td u \<longrightarrow> sentMessages (snd ?r) = []"
      using todaySection_silent [of e forceCheck td ?s chatId] same by simp
    have "fst ?r = None" by (simp add: r)
    moreover have "lastLoeTomorrowStatus (usr (snd ?r)) = Some Missing"
      by (simp add: r none m(2))
    ultimately show "fst ?r = None
               \<and> lastLoeTomorrowStatus (usr (snd ?r)) = Some Missing
               \<and> events (snd ?r) \<noteq> []
               \<and> last (events (snd ?r)) = Persisted (usr (snd ?r))
               \<and> (\<forall>m\<in>set (sentMessages (snd ?r)).
                     isTodayNotice m \<and> \<not> isTomorrowNotice m \<and> \<not> isErrorReport m)
               \<and> sentMessages (snd ?r) = sentMessages ?W
               \<and> (todayIsSilent e forceCheck td u \<longrightarrow> sentMessages (snd ?r) = [])"
      using ev sent same silent by (intro conjI) simp_all
  qed
  have fourth: "\<forall>tm. tmr = Some tm
                \<and> \<not> hasAnyData (parseGroupSchedulesFromText (envBig e) (itemText tm)) gs
              \<longrightarrow> sentMessages (snd ?r) = sentMessages ?W
                \<and> lastLoeTomorrowStatus (usr (snd ?r)) = Some Present"
  proof (intro allI impI, elim conjE)
    fix tm
    assume tm: "tmr = Some tm"
      and d: "\<not> hasAnyData (parseGroupSchedulesFromText (envBig e) (itemText tm)) gs"
    from d cg have d': "\<not> hasAnyData (parseGroupSchedulesFromText (envBig e) (itemText tm))
        (currentGroups (usr ?W))" by simp
    note a = tomorrowSection_nodata [OF d', of chatId]
    show "sentMessages (snd ?r) = sentMessages ?W
                \<and> lastLoeTomorrowStatus (usr (snd ?r)) = Some Present"
      by (simp add: r tm a)
  qed
  from first second third fourth show ?thesis by (intro conjI)
qed

theorem tomorrow_appearance_witness:
  "filter isAppearedNotice
     (sentMessages (snd (checkOneChat (sampleEnv (Fetched (Some scheduleA) (Some scheduleA)))
        (ascii ''42'') False (startOf newSubscriber))))
     = [notice HEAD_TOMORROW_APPEARED storedA LINK_TOMORROW []]
   \<and> filter isAppearedNotice
       (sentMessages (pollRun (ascii ''42'')
          [(sampleEnv (Fetched (Some scheduleA) (Some scheduleA)), False),
           (sampleEnv (Fetched (Some scheduleA) (Some scheduleA)), False),
           (sampleEnv (Fetched (Some scheduleA) (Some scheduleB)), True)]
          (snd (checkOneChat (sampleEnv (Fetched (Some scheduleA) (Some scheduleA)))
             (ascii ''42'') False (startOf newSubscriber)))))
       = [notice HEAD_TOMORROW_APPEARED storedA LINK_TOMORROW []]
   \<and> lastLoeTomorrowStatus
       (usr (pollRun (ascii ''42'')
          [(sampleEnv (Fetched (Some scheduleA) (Some scheduleA)), False),
           (sampleEnv (Fetched (Some scheduleA) (Some scheduleA)), False),
           (sampleEnv (Fetched (Some scheduleA) (Some scheduleB)), True)]
          (snd (checkOneChat (sampleEnv (Fetched (Some scheduleA) (Some scheduleA)))
             (ascii ''42'') False (startOf newSubscriber)))))
       = Some Present
   \<and> lastLoeTomorrowStatus
       (usr (snd (checkOneChat (sampleEnv (Fetched (Some scheduleA) None))
          (ascii ''42'') False (startOf settledSubscriber)))) = Some Missing
   \<and> sentMessages (snd (checkOneChat (sampleEnv (Fetched (Some scheduleA) None))
          (ascii ''42'') False (startOf settledSubscriber))) = []"
proof -
  let ?ps = "[(sampleEnv (Fetched (Some scheduleA) (Some scheduleA)), False),
           (sampleEnv (Fetched (Some scheduleA) (Some scheduleA)), False),
           (sampleEnv (Fetched (Some scheduleA) (Some scheduleB)), True)]"
  have a: "watching newSubscriber \<or> False" by (simp add: newSubscriber_def)
  have b: "groups newSubscriber = Some [ascii ''1.1'']" by (simp add: newSubscriber_def)
  have c: "[ascii ''1.1''] \<noteq> []" by simp
  have d: "envFetch (sampleEnv (Fetched (Some scheduleA) (Some scheduleA)))
             = Fetched (Some scheduleA) (Some scheduleA)"
    by (simp add: sampleEnv_def)
  have h: "hasAnyData (parseGroupSchedulesFromText
             (envBig (sampleEnv (Fetched (Some scheduleA) (Some scheduleA)))) (itemText scheduleA))
             [ascii ''1.1'']"
    by (simp add: hasAnyData_def sample_eval text_eval)
  have n: "lastLoeTomorrowStatus newSubscriber \<noteq> Some Present"
    by (simp add: newSubscriber_def defaultUser_def)
  have t: "watchedTextOf (headerLinesOf (itemText scheduleA))
             (selectLines (parseGroupSchedulesFromText
                (envBig (sampleEnv (Fetched (Some scheduleA) (Some scheduleA)))) (itemText scheduleA))
                placeholderTomorrow [ascii ''1.1'']) = storedA"
    by (simp add: watchedTextOf_def selectLines_def sample_eval text_eval)
  have i: "imageUrl scheduleA = []" by (simp add: scheduleA_def)
  have p: "tomorrowNeverAbsent ?ps" by (simp add: tomorrowNeverAbsent_def sampleEnv_def)
  note A = tomorrow_appearance [OF a b c d sampleEnv_succeeds, of "ascii ''42''",
      THEN conjunct1, THEN spec, of scheduleA, THEN mp, OF conjI [OF refl conjI [OF h n]]]
  note A' = A [unfolded t i]
  from A' have first: "filter isAppearedNotice
     (sentMessages (snd (checkOneChat (sampleEnv (Fetched (Some scheduleA) (Some scheduleA)))
        (ascii ''42'') False (startOf newSubscriber))))
     = [notice HEAD_TOMORROW_APPEARED storedA LINK_TOMORROW []]"
    by (rule conjunct1)
  from A' [THEN conjunct2, THEN conjunct2, THEN conjunct2, THEN spec, of ?ps, THEN mp, OF p]
  have later: "filter isAppearedNotice
       (sentMessages (pollRun (ascii ''42'') ?ps
          (snd (checkOneChat (sampleEnv (Fetched (Some scheduleA) (Some scheduleA)))
             (ascii ''42'') False (startOf newSubscriber)))))
       = [notice HEAD_TOMORROW_APPEARED storedA LINK_TOMORROW []]
   \<and> lastLoeTomorrowStatus
       (usr (pollRun (ascii ''42'') ?ps
          (snd (checkOneChat (sampleEnv (Fetched (Some scheduleA) (Some scheduleA)))
             (ascii ''42'') False (startOf newSubscriber)))))
       = Some Present" .
  have a': "watching settledSubscriber \<or> False" by (simp add: settledSubscriber_def)
  have b': "groups settledSubscriber = Some [ascii ''1.1'']" by (simp add: settledSubscriber_def)
  have d': "envFetch (sampleEnv (Fetched (Some scheduleA) None)) = Fetched (Some scheduleA) None"
    by (simp add: sampleEnv_def)
  have q: "todayIsSilent (sampleEnv (Fetched (Some scheduleA) None)) False scheduleA settledSubscriber"
  proof -
    have prev: "previousGroupsText (lastLoeWatchedText settledSubscriber) = Some lineA"
      by (simp add: previousGroupsText_def sample_eval text_eval)
    have cur: "watchedGroupsTextOf
        (selectLines (parseGroupSchedulesFromText (envBig (sampleEnv (Fetched (Some scheduleA) None)))
           (itemText scheduleA)) placeholderToday (currentGroups settledSubscriber)) = lineA"
      by (simp add: watchedGroupsTextOf_def selectLines_def currentGroups_def sample_eval text_eval)
    have ny: "\<not> isNotifiedYesterday (sampleEnv (Fetched (Some scheduleA) None)) settledSubscriber"
      by (simp add: isNotifiedYesterday_def sample_eval)
    show ?thesis by (simp add: todayIsSilent_def prev cur ny)
  qed
  note B = tomorrow_appearance [OF a' b' c d' sampleEnv_succeeds, of "ascii ''42''",
      THEN conjunct2, THEN conjunct2, THEN conjunct1, THEN mp, OF refl]
  from B have third: "lastLoeTomorrowStatus
       (usr (snd (checkOneChat (sampleEnv (Fetched (Some scheduleA) None))
          (ascii ''42'') False (startOf settledSubscriber)))) = Some Missing"
    by (rule conjunct1 [OF conjunct2])
  from B [THEN conjunct2, THEN conjunct2, THEN conjunct2, THEN conjunct2, THEN conjunct2,
      THEN conjunct2, THEN mp, OF q]
  have fourth: "sentMessages (snd (checkOneChat (sampleEnv (Fetched (Some scheduleA) None))
          (ascii ''42'') False (startOf settledSubscriber))) = []" .
  from first later third fourth show ?thesis by (intro conjI) simp_all
qed

theorem tomorrow_absent_counterexample:
  "envFetch (sampleEnv (Fetched (Some scheduleB) None)) = Fetched (Some scheduleB) None
   \<and> watching settledSubscriber
   \<and> sentMessages (snd (checkOneChat (sampleEnv (Fetched (Some scheduleB) None))
        (ascii ''42'') False (startOf settledSubscriber)))
       = [notice HEAD_CHANGED ([72, 10, 73, 10, 10] @ lineB) LINK_TODAY []]
   \<and> lastLoeTomorrowStatus
       (usr (snd (checkOneChat (sampleEnv (Fetched (Some scheduleB) None))
          (ascii ''42'') False (startOf settledSubscriber)))) = Some Missing"
  by (simp add: check_eval sample_eval text_eval placeholder_eval)

section \<open>The rule for a change of tomorrow's schedule\<close>

lemma fresh_arrays_differ:
  "strictlyUnequal (fst (newArray r xs)) (fst (newArray (snd (newArray r xs)) ys))"
  by (simp add: strictlyUnequal_def newArray_def)

lemma tomorrow_change_rule_of_the_code:
  assumes "ioSucceeds e"
    and "lastLoeTomorrowStatus (usr w) = Some Present"
    and "hasAnyData (parseGroupSchedulesFromText (envBig e) (itemText tm)) (currentGroups (usr w))"
  shows "sentMessages (snd (tomorrowSection e c (Some tm) w))
           = sentMessages w @
             (if previousGroupsText (lastLoeTomorrowWatchedText (usr w))
                   \<noteq> Some (watchedGroupsTextOf
                         (selectLines (parseGroupSchedulesFromText (envBig e) (itemText tm))
                            placeholderTomorrow (currentGroups (usr w))))
              then [notice HEAD_TOMORROW_CHANGED
                      (watchedTextOf (headerLinesOf (itemText tm))
                         (selectLines (parseGroupSchedulesFromText (envBig e) (itemText tm))
                            placeholderTomorrow (currentGroups (usr w))))
                      LINK_TOMORROW (imageUrl tm)]
              else [])"
  using assms
  by (simp add: tomorrowSection_def Let_def newArray_def strictlyUnequal_def write_ok send_ok
      sentMessages_def currentGroups_def)

text \<open>
  C1 at a concrete input: the subscriber tracks subgroup 1.1, tomorrow's status is
  \<^verbatim>\<open>present\<close>, the stored tomorrow text has the header lines H and I and the line a; the
  fetched schedule for tomorrow has the same two header lines and the line b. The header
  lines are equal, only the subgroup text differs, and the check sends the message that
  tomorrow's schedule has changed and stores the new text.
\<close>

theorem tomorrow_change_with_equal_headers:
  "headerLinesOf storedA = headerLinesOf (itemText scheduleB)
   \<and> sentMessages (snd (checkOneChat (sampleEnv (Fetched (Some scheduleA) (Some scheduleB)))
        (ascii ''42'') False
        (startOf (settledSubscriber\<lparr>lastLoeNotifiedAt := Some (iso sampleNow)\<rparr>))))
       = [notice HEAD_TOMORROW_CHANGED ([72, 10, 73, 10, 10] @ lineB) LINK_TOMORROW []]
   \<and> lastLoeTomorrowWatchedText
       (usr (snd (checkOneChat (sampleEnv (Fetched (Some scheduleA) (Some scheduleB)))
          (ascii ''42'') False
          (startOf (settledSubscriber\<lparr>lastLoeNotifiedAt := Some (iso sampleNow)\<rparr>)))))
       = Some ([72, 10, 73, 10, 10] @ lineB)"
  by (simp add: check_eval sample_eval text_eval placeholder_eval)

section \<open>The re-announcement on a new day\<close>

lemma today_rollover_rule_of_the_code:
  assumes "ioSucceeds e"
    and "previousGroupsText (lastLoeWatchedText (usr w))
           = Some (watchedGroupsTextOf
                (selectLines (parseGroupSchedulesFromText (envBig e) (itemText td))
                   placeholderToday (currentGroups (usr w))))"
    and "watchedGroupsTextOf
           (selectLines (parseGroupSchedulesFromText (envBig e) (itemText td))
              placeholderToday (currentGroups (usr w))) \<noteq> []"
  shows "sentMessages (snd (todaySection e c False td w))
           = sentMessages w @
             (if isNotifiedYesterday e (usr w)
              then [notice HEAD_ROLLOVER
                      (watchedTextOf (headerLinesOf (itemText td))
                         (selectLines (parseGroupSchedulesFromText (envBig e) (itemText td))
                            placeholderToday (currentGroups (usr w))))
                      LINK_TODAY (imageUrl td)]
              else [])"
  using assms
  by (simp add: todaySection_def Let_def write_ok send_ok sentMessages_def currentGroups_def
      isNotifiedYesterday_def)

text \<open>
  C2 at a concrete input: the subscriber was last notified on 2 October 2026; the check
  runs on 2 November 2026, a different calendar day with the same day of the month, without
  \<^verbatim>\<open>forceCheck\<close>, and the rendered subgroup text equals the stored baseline. The check
  sends nothing and leaves \<^verbatim>\<open>lastLoeNotifiedAt\<close> as it was.
\<close>

theorem rollover_on_same_day_of_month:
  "lastLoeNotifiedAt settledSubscriber = Some (ascii ''2026-10-02T09:00:00.000Z'')
   \<and> envParseDate (sampleEnv (Fetched (Some scheduleA) None)) (ascii ''2026-10-02T09:00:00.000Z'')
       = Some \<lparr>year = 2026, month = 10, day = 2\<rparr>
   \<and> localDate (envNow (sampleEnv (Fetched (Some scheduleA) None)) AtRollover)
       = \<lparr>year = 2026, month = 11, day = 2\<rparr>
   \<and> sentMessages (snd (checkOneChat (sampleEnv (Fetched (Some scheduleA) None))
        (ascii ''42'') False (startOf settledSubscriber))) = []
   \<and> lastLoeNotifiedAt
       (usr (snd (checkOneChat (sampleEnv (Fetched (Some scheduleA) None))
          (ascii ''42'') False (startOf settledSubscriber))))
       = Some (ascii ''2026-10-02T09:00:00.000Z'')"
  by (simp add: check_eval sample_eval text_eval placeholder_eval)

section \<open>The serialisation queue: one unit at a time, in order\<close>

lemma init_queue: "queueAt initMachine [] None []"
  by (simp add: queueAt_def initMachine_def lastSo_def untouched_def)


lemma waitingFrom_frame:
  assumes "pstateOf m' p = pstateOf m p" "reactionsOf m' p = reactionsOf m p"
    and "\<forall>k\<in>set ws. unitOf m' k = unitOf m k
           \<and> pstateOf m' (Next k) = pstateOf m (Next k)
           \<and> reactionsOf m' (Next k) = reactionsOf m (Next k)
           \<and> pstateOf m' (So k) = pstateOf m (So k)
           \<and> reactionsOf m' (So k) = reactionsOf m (So k)
           \<and> pstateOf m' (Own k) = pstateOf m (Own k)
           \<and> reactionsOf m' (Own k) = reactionsOf m (Own k)"
  shows "waitingFrom m' p ws = waitingFrom m p ws"
  using assms by (induction ws arbitrary: p) auto

lemma doneUnit_frame:
  assumes "unitOf m' k = unitOf m k"
    and "pstateOf m' (Next k) = pstateOf m (Next k)" "reactionsOf m' (Next k) = reactionsOf m (Next k)"
    and "pstateOf m' (So k) = pstateOf m (So k)" "reactionsOf m' (So k) = reactionsOf m (So k)"
    and "pstateOf m' (Own k) = pstateOf m (Own k)" "reactionsOf m' (Own k) = reactionsOf m (Own k)"
  shows "doneUnit m' k = doneUnit m k"
  using assms by (simp add: doneUnit_def)

lemma untouched_frame:
  assumes "unitOf m' k = unitOf m k"
    and "pstateOf m' (Next k) = pstateOf m (Next k)" "reactionsOf m' (Next k) = reactionsOf m (Next k)"
    and "pstateOf m' (So k) = pstateOf m (So k)" "reactionsOf m' (So k) = reactionsOf m (So k)"
    and "pstateOf m' (Own k) = pstateOf m (Own k)" "reactionsOf m' (Own k) = reactionsOf m (Own k)"
  shows "untouched m' k = untouched m k"
  using assms by (simp add: untouched_def)

lemma lastSo_simps [simp]:
  "lastSo [] = Initial" "lastSo (ks @ [k]) = So k" "(lastSo ks = Own k) = False"
  "(lastSo ks = Next k) = False"
  by (simp_all add: lastSo_def)

lemma lastSo_Cons: "lastSo (ds @ a # ws) = lastSo (a # ws)"
  by (simp add: lastSo_def)

lemma lastSo_mem: "lastSo ks = So k \<Longrightarrow> k \<in> set ks"
  by (auto simp: lastSo_def split: if_splits)

lemma finish_step:
  assumes q: "queueAt m ds (Some (a, Executing)) ws"
  shows "queueAt (finishUnit a out m) ds (Some (a, Forwarding out)) ws"
proof -
  let ?m' = "finishUnit a out m"
  from q have sub: "submitted m = ds @ a # ws" and dist: "distinct (ds @ a # ws)"
    and act: "activeUnit m (lastSo ds) a Executing"
    by (auto simp: queueAt_def)
  from act have own: "pstateOf m (Own a) = Pending" "reactionsOf m (Own a) = [forwardReaction a]"
    "jobs m = []"
    by (simp_all add: activeUnit_def)
  have m': "?m' = m\<lparr>unitOf := (unitOf m)(a := Finished out),
                     pstateOf := (pstateOf m)(Own a := Settled out),
                     jobs := [(out, forwardReaction a)],
                     reactionsOf := (reactionsOf m)(Own a := [])\<rparr>"
    using own by (simp add: finishUnit_def settle_def)
  have nd: "a \<notin> set ds" "a \<notin> set ws" using dist by auto
  have w: "waitingFrom ?m' (So a) ws = waitingFrom m (So a) ws"
    unfolding m' using nd by (intro waitingFrom_frame) auto
  have d: "\<forall>k\<in>set ds. doneUnit ?m' k = doneUnit m k"
    unfolding m' using nd by (auto simp: doneUnit_def)
  have u: "\<forall>k. k \<notin> set (submitted m) \<longrightarrow> untouched ?m' k = untouched m k"
    unfolding m' using sub by (auto simp: untouched_def)
  show ?thesis
    using q w d u unfolding queueAt_def
    by (auto simp: m' activeUnit_def sub)
qed


lemma call_job_step:
  assumes q: "queueAt m ds (Some (a, Ready)) ws" and j: "j \<in> set (jobs m)"
  shows "queueAt (runJob j (m\<lparr>jobs := remove1 j (jobs m)\<rparr>)) ds (Some (a, Executing)) ws"
proof -
  let ?M = "m\<lparr>jobs := [], unitOf := (unitOf m)(a := Running), started := started m @ [a],
              reactionsOf := (reactionsOf m)(Own a := [forwardReaction a])\<rparr>"
  from q have sub: "submitted m = ds @ a # ws" and dist: "distinct (ds @ a # ws)"
    and act: "activeUnit m (lastSo ds) a Ready"
    by (auto simp: queueAt_def)
  from act have own: "pstateOf m (Own a) = Pending" "reactionsOf m (Own a) = []"
    "jobs m = [(Fulfilled, callReaction a)]"
    by (simp_all add: activeUnit_def)
  from j own(3) have jj: "j = (Fulfilled, callReaction a)" by simp
  have m': "runJob j (m\<lparr>jobs := remove1 j (jobs m)\<rparr>) = ?M"
    using own by (simp add: jj runJob_def thenP_def callReaction_def forwardReaction_def)
  have nd: "a \<notin> set ds" "a \<notin> set ws" using dist by auto
  have w: "waitingFrom ?M (So a) ws = waitingFrom m (So a) ws"
    using nd by (intro waitingFrom_frame) auto
  have d: "\<forall>k\<in>set ds. doneUnit ?M k = doneUnit m k"
    using nd by (auto simp: doneUnit_def)
  have u: "\<forall>k. k \<notin> set (submitted m) \<longrightarrow> untouched ?M k = untouched m k"
    using sub by (auto simp: untouched_def)
  have "queueAt ?M ds (Some (a, Executing)) ws"
    using q w d u unfolding queueAt_def
    by (auto simp: activeUnit_def sub)
  then show ?thesis by (simp only: m')
qed

lemma forward_job_step:
  assumes q: "queueAt m ds (Some (a, Forwarding out)) ws" and j: "j \<in> set (jobs m)"
  shows "queueAt (runJob j (m\<lparr>jobs := remove1 j (jobs m)\<rparr>)) ds (Some (a, Swallowing out)) ws"
proof -
  let ?M = "m\<lparr>pstateOf := (pstateOf m)(Next a := Settled out),
              jobs := [(out, swallowReaction a)],
              reactionsOf := (reactionsOf m)(Next a := [])\<rparr>"
  from q have sub: "submitted m = ds @ a # ws" and dist: "distinct (ds @ a # ws)"
    and act: "activeUnit m (lastSo ds) a (Forwarding out)"
    by (auto simp: queueAt_def)
  from act have nx: "pstateOf m (Next a) = Pending" "reactionsOf m (Next a) = [swallowReaction a]"
    "jobs m = [(out, forwardReaction a)]"
    by (simp_all add: activeUnit_def)
  from j nx(3) have jj: "j = (out, forwardReaction a)" by simp
  have m': "runJob j (m\<lparr>jobs := remove1 j (jobs m)\<rparr>) = ?M"
    using nx by (simp add: jj runJob_def settle_def forwardReaction_def)
  have nd: "a \<notin> set ds" "a \<notin> set ws" using dist by auto
  have w: "waitingFrom ?M (So a) ws = waitingFrom m (So a) ws"
    using nd by (intro waitingFrom_frame) auto
  have d: "\<forall>k\<in>set ds. doneUnit ?M k = doneUnit m k"
    using nd by (auto simp: doneUnit_def)
  have u: "\<forall>k. k \<notin> set (submitted m) \<longrightarrow> untouched ?M k = untouched m k"
    using sub by (auto simp: untouched_def)
  have "queueAt ?M ds (Some (a, Swallowing out)) ws"
    using q w d u unfolding queueAt_def
    by (auto simp: activeUnit_def sub)
  then show ?thesis by (simp only: m')
qed

lemma swallow_job_step:
  assumes q: "queueAt m ds (Some (a, Swallowing out)) ws" and j: "j \<in> set (jobs m)"
  shows "queueAt (runJob j (m\<lparr>jobs := remove1 j (jobs m)\<rparr>)) (ds @ [a])
           (case ws of [] \<Rightarrow> None | b # bs \<Rightarrow> Some (b, Ready)) (tl ws)"
proof -
  let ?M = "m\<lparr>pstateOf := (pstateOf m)(So a := Settled Fulfilled),
              jobs := map (Pair Fulfilled) (reactionsOf m (So a)),
              reactionsOf := (reactionsOf m)(So a := [])\<rparr>"
  from q have sub: "submitted m = ds @ a # ws" and dist: "distinct (ds @ a # ws)"
    and act: "activeUnit m (lastSo ds) a (Swallowing out)"
    and wait: "waitingFrom m (So a) ws"
    and st: "stateOp m = lastSo (ds @ a # ws)" "reactionsOf m (stateOp m) = []"
    by (auto simp: queueAt_def)
  from act have so: "pstateOf m (So a) = Pending" "jobs m = [(out, swallowReaction a)]"
    by (simp_all add: activeUnit_def)
  from j so(2) have jj: "j = (out, swallowReaction a)" by simp
  have m': "runJob j (m\<lparr>jobs := remove1 j (jobs m)\<rparr>) = ?M"
    using so by (simp add: jj runJob_def settle_def swallowReaction_def)
  have nd: "a \<notin> set ds" "a \<notin> set ws" using dist by auto
  have d: "\<forall>k\<in>set ds. doneUnit ?M k = doneUnit m k"
    using nd by (auto simp: doneUnit_def)
  have u: "\<forall>k. k \<notin> set (submitted m) \<longrightarrow> untouched ?M k = untouched m k"
    using sub by (auto simp: untouched_def)
  have "queueAt ?M (ds @ [a]) (case ws of [] \<Rightarrow> None | b # bs \<Rightarrow> Some (b, Ready)) (tl ws)"
  proof (cases ws)
    case Nil
    with st have "reactionsOf m (So a) = []" by simp
    then show ?thesis
      using q d u Nil unfolding queueAt_def
      by (auto simp: activeUnit_def sub doneUnit_def)
  next
    case (Cons b bs)
    with wait have r: "reactionsOf m (So a) = [callReaction b]" by simp
    have nb: "b \<noteq> a" "b \<notin> set bs" "a \<notin> set bs" using dist Cons by auto
    have w: "waitingFrom ?M (So b) bs = waitingFrom m (So b) bs"
      using nb by (intro waitingFrom_frame) auto
    have l: "lastSo (ds @ a # b # bs) \<noteq> So a"
      using nb by (auto simp: lastSo_def)
    show ?thesis
      using q d u Cons w r l unfolding queueAt_def
      by (auto simp: activeUnit_def doneUnit_def)
  qed
  then show ?thesis by (simp only: m')
qed


lemma waitingFrom_member:
  "waitingFrom m p ws \<Longrightarrow> k \<in> set ws \<Longrightarrow>
     unitOf m k = NotStarted \<and> pstateOf m (So k) = Pending \<and> pstateOf m (Next k) = Pending"
  by (induction ws arbitrary: p) auto

lemma waitingFrom_submit:
  assumes "waitingFrom m p ws" and "distinct ws" and "\<forall>x\<in>set ws. p \<noteq> So x"
    and "k \<notin> set ws" and "untouched m k"
    and "p \<noteq> Next k" "p \<noteq> So k" "p \<noteq> Own k" and "pstateOf m p = Pending"
  shows "waitingFrom
           (m\<lparr>reactionsOf := (reactionsOf m)
                 ((if ws = [] then p else So (last ws)) := [callReaction k],
                  Next k := [swallowReaction k]),
               stateOp := s, submitted := t\<rparr>)
           p (ws @ [k])"
  using assms
proof (induction ws arbitrary: p)
  case Nil
  then show ?case by (simp add: untouched_def)
next
  case (Cons w ws)
  from Cons.prems have w: "waitingFrom m (So w) ws" "distinct ws" "\<forall>x\<in>set ws. So w \<noteq> So x"
    "k \<notin> set ws" "So w \<noteq> Next k" "So w \<noteq> So k" "So w \<noteq> Own k" "pstateOf m (So w) = Pending"
    by auto
  note ih = Cons.IH [OF w(1) w(2) w(3) w(4) Cons.prems(5) w(5) w(6) w(7) w(8)]
  have e: "(if w # ws = [] then p else So (last (w # ws)))
             = (if ws = [] then So w else So (last ws))" by simp
  from Cons.prems have ne: "p \<noteq> (if ws = [] then So w else So (last ws))"
    by auto
  from Cons.prems have kw: "k \<noteq> w" by auto
  from Cons.prems w(2) have nl: "Next w \<noteq> (if ws = [] then So w else So (last ws))"
    "Own w \<noteq> (if ws = [] then So w else So (last ws))" by auto
  show ?case
    using Cons.prems ih ne kw nl unfolding e
    by (simp add: untouched_def)
qed

lemma submit_idle_step:
  assumes q: "queueAt m ds None []" and k: "k \<notin> set (submitted m)"
  shows "queueAt (runStateOp k m) ds (Some (k, Ready)) []"
proof -
  let ?M = "m\<lparr>jobs := [(Fulfilled, callReaction k)],
              reactionsOf := (reactionsOf m)(Next k := [swallowReaction k]),
              stateOp := So k, submitted := submitted m @ [k]\<rparr>"
  from q have sub: "submitted m = ds" and st: "stateOp m = lastSo ds"
    and jobs: "jobs m = []" and un: "untouched m k"
    and ini: "pstateOf m Initial = Settled Fulfilled" and dn: "\<forall>x\<in>set ds. doneUnit m x"
    using k by (auto simp: queueAt_def)
  have sf: "pstateOf m (lastSo ds) = Settled Fulfilled"
    using ini dn by (auto simp: lastSo_def doneUnit_def)
  have m': "runStateOp k m = ?M"
    using st sf jobs un
    by (simp add: runStateOp_def thenP_def Let_def untouched_def callReaction_def
        swallowReaction_def)
  have kd: "k \<notin> set ds" using k sub by simp
  have d: "\<forall>x\<in>set ds. doneUnit ?M x = doneUnit m x"
    using kd by (auto simp: doneUnit_def)
  have u: "\<forall>x. x \<notin> set (submitted m @ [k]) \<longrightarrow> untouched ?M x = untouched m x"
    by (auto simp: untouched_def)
  have "queueAt ?M ds (Some (k, Ready)) []"
    using q d u un sf kd unfolding queueAt_def
    by (auto simp: activeUnit_def untouched_def)
  then show ?thesis by (simp only: m')
qed

lemma last_differs:
  "xs \<noteq> [] \<Longrightarrow> ys \<noteq> [] \<Longrightarrow> set xs \<inter> set ys = {} \<Longrightarrow> last xs \<noteq> last ys"
  by (metis disjoint_iff last_in_set)

lemma queueAt_busy:
  assumes "distinct (submitted m)" and "stateOp m = lastSo (submitted m)"
    and "reactionsOf m (stateOp m) = []"
    and "pstateOf m Initial = Settled Fulfilled" and "reactionsOf m Initial = []"
    and "\<forall>k\<in>set ds. doneUnit m k"
    and "\<forall>k. k \<notin> set (submitted m) \<longrightarrow> untouched m k"
    and "submitted m = ds @ a # ws"
    and "activeUnit m (lastSo ds) a ph"
    and "started m = ds @ (if ph = Ready then [] else [a])"
    and "waitingFrom m (So a) ws"
  shows "queueAt m ds (Some (a, ph)) ws"
  using assms by (simp add: queueAt_def)

lemma submit_busy_step:
  assumes q: "queueAt m ds (Some (a, ph)) ws" and k: "k \<notin> set (submitted m)"
  shows "queueAt (runStateOp k m) ds (Some (a, ph)) (ws @ [k])"
proof -
  let ?P = "if ws = [] then So a else So (last ws)"
  let ?M = "m\<lparr>reactionsOf := (reactionsOf m)(?P := [callReaction k], Next k := [swallowReaction k]),
              stateOp := So k, submitted := submitted m @ [k]\<rparr>"
  from q have sub: "submitted m = ds @ a # ws" and dist: "distinct (ds @ a # ws)"
    and st: "stateOp m = lastSo (ds @ a # ws)" and sr: "reactionsOf m (stateOp m) = []"
    and act: "activeUnit m (lastSo ds) a ph" and wait: "waitingFrom m (So a) ws"
    and un: "untouched m k"
    and ini: "pstateOf m Initial = Settled Fulfilled" "reactionsOf m Initial = []"
    and dn: "\<forall>x\<in>set ds. doneUnit m x"
    and ut: "\<forall>x. x \<notin> set (submitted m) \<longrightarrow> untouched m x"
    and sta: "started m = ds @ (if ph = Ready then [] else [a])"
    using k by (auto simp: queueAt_def)
  have P: "stateOp m = ?P" using st by (simp add: lastSo_def)
  have soa: "pstateOf m (So a) = Pending" using act by (simp add: activeUnit_def)
  have pp: "pstateOf m ?P = Pending"
    using soa waitingFrom_member [OF wait, of "last ws"] by auto
  have m': "runStateOp k m = ?M"
    using P pp sr un
    by (simp add: runStateOp_def thenP_def Let_def untouched_def callReaction_def
        swallowReaction_def)
  have kn: "k \<noteq> a" "k \<notin> set ds" "k \<notin> set ws" using k sub by auto
  have nd: "a \<notin> set ds" "a \<notin> set ws" "distinct ws" using dist by auto
  have kP: "So k \<noteq> ?P" using kn by auto
  have "queueAt ?M ds (Some (a, ph)) (ws @ [k])"
  proof (rule queueAt_busy)
    show "distinct (submitted ?M)" using dist kn by (simp add: sub)
    show "stateOp ?M = lastSo (submitted ?M)" by simp
    show "reactionsOf ?M (stateOp ?M) = []" using kP un by (simp add: untouched_def)
    show "pstateOf ?M Initial = Settled Fulfilled" using ini by simp
    show "reactionsOf ?M Initial = []" using ini by simp
    have pd: "\<forall>x\<in>set ds. So x \<noteq> ?P \<and> Next x \<noteq> ?P \<and> Own x \<noteq> ?P" using dist by auto
    show "\<forall>x\<in>set ds. doneUnit ?M x"
      using dn kn pd by (auto simp: doneUnit_def)
    show "\<forall>x. x \<notin> set (submitted ?M) \<longrightarrow> untouched ?M x"
      using ut sub by (auto simp: untouched_def)
    show "submitted ?M = ds @ a # ws @ [k]" by (simp add: sub)
    have lp: "lastSo ds \<noteq> ?P" using dist by (auto simp: lastSo_def dest: last_differs)
    show "activeUnit ?M (lastSo ds) a ph"
      using act lp kn by (cases ph) (auto simp: activeUnit_def)
    show "started ?M = ds @ (if ph = Ready then [] else [a])" using sta by simp
    show "waitingFrom ?M (So a) (ws @ [k])"
      using wait nd kn un soa by (intro waitingFrom_submit) auto
  qed
  then show ?thesis by (simp only: m')
qed


lemma running_is_active:
  assumes q: "queueAt m ds act ws" and r: "unitOf m k = Running"
  shows "act = Some (k, Executing)"
proof (cases act)
  case None
  with q have "submitted m = ds" "\<forall>x\<in>set ds. doneUnit m x"
    "\<forall>x. x \<notin> set (submitted m) \<longrightarrow> untouched m x"
    by (auto simp: queueAt_def)
  with r show ?thesis by (cases "k \<in> set ds") (auto simp: doneUnit_def untouched_def)
next
  case (Some ap)
  obtain a ph where ap: "ap = (a, ph)" by (cases ap)
  from q Some ap have sub: "submitted m = ds @ a # ws" and dn: "\<forall>x\<in>set ds. doneUnit m x"
    and ut: "\<forall>x. x \<notin> set (submitted m) \<longrightarrow> untouched m x"
    and act: "activeUnit m (lastSo ds) a ph" and wait: "waitingFrom m (So a) ws"
    by (auto simp: queueAt_def)
  have "k \<notin> set ds" using dn r by (auto simp: doneUnit_def)
  moreover have "k \<notin> set ws" using waitingFrom_member [OF wait, of k] r by auto
  moreover have "k \<in> set (submitted m)" using ut r by (auto simp: untouched_def)
  ultimately have ka: "k = a" using sub by auto
  with act r have "ph = Executing" by (cases ph) (auto simp: activeUnit_def)
  with ka Some ap show ?thesis by simp
qed

lemma step_keeps_queue:
  assumes i: "queueInvariant m" and s: "step m m'"
  shows "queueInvariant m'"
proof -
  from i obtain ds act ws where q: "queueAt m ds act ws" by (auto simp: queueInvariant_def)
  have "\<exists>ds' act' ws'. queueAt m' ds' act' ws'"
    using s
  proof cases
    case (Submit k)
    show ?thesis
    proof (cases act)
      case None
      with q have "ws = []" by (simp add: queueAt_def)
      with q None have "queueAt m ds None []" by simp
      from submit_idle_step [OF this Submit(2)] show ?thesis
        unfolding Submit(1) by blast
    next
      case (Some ap)
      then obtain a ph where "act = Some (a, ph)" by (cases ap) auto
      with q have "queueAt m ds (Some (a, ph)) ws" by simp
      from submit_busy_step [OF this Submit(2)] show ?thesis
        unfolding Submit(1) by blast
    qed
  next
    case (Job j)
    show ?thesis
    proof (cases act)
      case None
      with q have "jobs m = []" by (simp add: queueAt_def)
      with Job show ?thesis by simp
    next
      case (Some ap)
      then obtain a ph where a: "act = Some (a, ph)" by (cases ap) auto
      show ?thesis
      proof (cases ph)
        case Ready
        with q a have "queueAt m ds (Some (a, Ready)) ws" by simp
        from call_job_step [OF this Job(2)] show ?thesis unfolding Job(1) by blast
      next
        case Executing
        with q a have "jobs m = []" by (simp add: queueAt_def activeUnit_def)
        with Job show ?thesis by simp
      next
        case (Forwarding out)
        with q a have "queueAt m ds (Some (a, Forwarding out)) ws" by simp
        from forward_job_step [OF this Job(2)] show ?thesis unfolding Job(1) by blast
      next
        case (Swallowing out)
        with q a have "queueAt m ds (Some (a, Swallowing out)) ws" by simp
        from swallow_job_step [OF this Job(2)] show ?thesis unfolding Job(1) by blast
      qed
    qed
  next
    case (Finish k out)
    from running_is_active [OF q Finish(2)] q
    have "queueAt m ds (Some (k, Executing)) ws" by simp
    from finish_step [OF this] show ?thesis unfolding Finish(1) by blast
  qed
  then show ?thesis by (simp add: queueInvariant_def)
qed

lemma reachable_queue: "reachable m \<Longrightarrow> queueInvariant m"
proof (induction rule: reachable.induct)
  case Start
  have "queueAt initMachine [] None []"
    by (simp add: queueAt_def initMachine_def lastSo_def untouched_def)
  then show ?case by (auto simp: queueInvariant_def)
next
  case (After m m')
  then show ?case by (auto intro: step_keeps_queue)
qed

lemma failingRun_reachable: "failingRun m m' \<Longrightarrow> reachable m \<Longrightarrow> reachable m'"
  by (induction rule: failingRun.induct) (auto intro: reachable.After step.Job step.Finish)

lemma failingRun_trans: "failingRun m' m'' \<Longrightarrow> failingRun m m' \<Longrightarrow> failingRun m m''"
  by (induction rule: failingRun.induct) (auto intro: failingRun.intros)

lemma head_completes:
  assumes q: "queueAt m ds (Some (a, ph)) ws"
  shows "\<exists>m'. failingRun m m'
            \<and> queueAt m' (ds @ [a]) (case ws of [] \<Rightarrow> None | b # bs \<Rightarrow> Some (b, Ready)) (tl ws)"
proof -
  let ?goal = "\<lambda>m. \<exists>m'. failingRun m m'
            \<and> queueAt m' (ds @ [a]) (case ws of [] \<Rightarrow> None | b # bs \<Rightarrow> Some (b, Ready)) (tl ws)"
  have sw: "?goal m1" if q1: "queueAt m1 ds (Some (a, Swallowing out)) ws" for m1 out
  proof -
    from q1 have j: "(out, swallowReaction a) \<in> set (jobs m1)"
      by (simp add: queueAt_def activeUnit_def)
    from swallow_job_step [OF q1 j] failingRun.ThenJob [OF failingRun.Here j]
    show ?thesis by blast
  qed
  have fw: "?goal m1" if q1: "queueAt m1 ds (Some (a, Forwarding out)) ws" for m1 out
  proof -
    from q1 have j: "(out, forwardReaction a) \<in> set (jobs m1)"
      by (simp add: queueAt_def activeUnit_def)
    let ?m2 = "runJob (out, forwardReaction a) (m1\<lparr>jobs := remove1 (out, forwardReaction a) (jobs m1)\<rparr>)"
    have r: "failingRun m1 ?m2" by (rule failingRun.ThenJob [OF failingRun.Here j])
    from sw [OF forward_job_step [OF q1 j]] obtain m' where
      "failingRun ?m2 m'"
      "queueAt m' (ds @ [a]) (case ws of [] \<Rightarrow> None | b # bs \<Rightarrow> Some (b, Ready)) (tl ws)"
      by blast
    with r show ?thesis by (blast intro: failingRun_trans)
  qed
  have ex: "?goal m1" if q1: "queueAt m1 ds (Some (a, Executing)) ws" for m1
  proof -
    from q1 have u: "unitOf m1 a = Running" by (simp add: queueAt_def activeUnit_def)
    have r: "failingRun m1 (finishUnit a Rejected m1)"
      by (rule failingRun.ThenReject [OF failingRun.Here u])
    from fw [OF finish_step [OF q1]] obtain m' where
      "failingRun (finishUnit a Rejected m1) m'"
      "queueAt m' (ds @ [a]) (case ws of [] \<Rightarrow> None | b # bs \<Rightarrow> Some (b, Ready)) (tl ws)"
      by blast
    with r show ?thesis by (blast intro: failingRun_trans)
  qed
  have rd: "?goal m1" if q1: "queueAt m1 ds (Some (a, Ready)) ws" for m1
  proof -
    from q1 have j: "(Fulfilled, callReaction a) \<in> set (jobs m1)"
      by (simp add: queueAt_def activeUnit_def)
    let ?m2 = "runJob (Fulfilled, callReaction a)
                 (m1\<lparr>jobs := remove1 (Fulfilled, callReaction a) (jobs m1)\<rparr>)"
    have r: "failingRun m1 ?m2" by (rule failingRun.ThenJob [OF failingRun.Here j])
    from ex [OF call_job_step [OF q1 j]] obtain m' where
      "failingRun ?m2 m'"
      "queueAt m' (ds @ [a]) (case ws of [] \<Rightarrow> None | b # bs \<Rightarrow> Some (b, Ready)) (tl ws)"
      by blast
    with r show ?thesis by (blast intro: failingRun_trans)
  qed
  from q sw fw ex rd show ?thesis by (cases ph) blast+
qed

lemma waiting_unit_starts:
  "queueAt m ds (Some (a, ph)) ws \<Longrightarrow> k \<in> set (a # ws) \<Longrightarrow>
     \<exists>m'. failingRun m m' \<and> k \<in> set (started m')"
proof (induction ws arbitrary: m ds a ph)
  case Nil
  then have ka: "k = a" by simp
  from head_completes [OF Nil.prems(1)] obtain m' where
    m': "failingRun m m'" "queueAt m' (ds @ [a]) None []" by auto
  from m'(2) have "started m' = ds @ [a]" by (simp add: queueAt_def)
  with m'(1) ka show ?case by auto
next
  case (Cons b bs)
  from head_completes [OF Cons.prems(1)] obtain m' where
    m': "failingRun m m'" "queueAt m' (ds @ [a]) (Some (b, Ready)) bs" by auto
  show ?case
  proof (cases "k = a")
    case True
    from m'(2) have "started m' = ds @ [a]" by (simp add: queueAt_def)
    with m'(1) True show ?thesis by auto
  next
    case False
    with Cons.prems(2) have "k \<in> set (b # bs)" by simp
    from Cons.IH [OF m'(2) this] obtain m'' where
      "failingRun m' m''" "k \<in> set (started m'')" by blast
    with m'(1) show ?thesis by (blast intro: failingRun_trans)
  qed
qed


text \<open>
  C9: in every state the queue can reach, whatever the order of submissions, jobs and ends
  of units: at most one unit is running, and it is the unit started last; the units have
  started in the order of their submission, each one after all the units before it had
  ended; the promise in \<^verbatim>\<open>stateOp\<close> is never rejected; and every submitted unit still gets
  started in a run of the machine in which every unit that ends is rejected.
\<close>

theorem serialisation_queue:
  assumes r: "reachable m"
  shows "(\<forall>k k'. unitOf m k = Running \<and> unitOf m k' = Running \<longrightarrow> k = k')
         \<and> (\<forall>k. unitOf m k = Running \<longrightarrow> started m \<noteq> [] \<and> k = last (started m))
         \<and> started m = take (length (started m)) (submitted m)
         \<and> (\<forall>k\<in>set (butlast (started m)). \<exists>out. unitOf m k = Finished out)
         \<and> pstateOf m (stateOp m) \<noteq> Settled Rejected
         \<and> (\<forall>k\<in>set (submitted m).
               \<exists>m'. failingRun m m' \<and> reachable m' \<and> k \<in> set (started m'))"
proof -
  from reachable_queue [OF r] obtain ds act ws where q: "queueAt m ds act ws"
    by (auto simp: queueInvariant_def)
  have one: "\<forall>k k'. unitOf m k = Running \<and> unitOf m k' = Running \<longrightarrow> k = k'"
  proof (intro allI impI)
    fix k k' assume kk: "unitOf m k = Running \<and> unitOf m k' = Running"
    from kk running_is_active [OF q, of k] have "act = Some (k, Executing)" by simp
    moreover from kk running_is_active [OF q, of k'] have "act = Some (k', Executing)" by simp
    ultimately show "k = k'" by simp
  qed
  have dn: "\<forall>k\<in>set ds. \<exists>out. unitOf m k = Finished out"
    using q by (auto simp: queueAt_def doneUnit_def)
  have st: "started m = ds \<or> (\<exists>a ph. act = Some (a, ph) \<and> started m = ds @ [a])"
    using q by (cases act) (auto simp: queueAt_def split: if_splits)
  have sub: "submitted m = ds @ (case act of None \<Rightarrow> [] | Some (a, ph) \<Rightarrow> a # ws)"
    using q by (cases act) (auto simp: queueAt_def)
  have lastr: "\<forall>k. unitOf m k = Running \<longrightarrow> started m \<noteq> [] \<and> k = last (started m)"
  proof (intro allI impI)
    fix k assume k: "unitOf m k = Running"
    from running_is_active [OF q k] have a: "act = Some (k, Executing)" .
    with q have "started m = ds @ [k]" by (simp add: queueAt_def)
    then show "started m \<noteq> [] \<and> k = last (started m)" by simp
  qed
  have fifo: "started m = take (length (started m)) (submitted m)"
    using st sub by (cases act) auto
  have fin: "\<forall>k\<in>set (butlast (started m)). \<exists>out. unitOf m k = Finished out"
    using st dn by (auto dest: in_set_butlastD)
  have nr: "pstateOf m (stateOp m) \<noteq> Settled Rejected"
  proof (cases act)
    case None
    with q have "stateOp m = lastSo ds" "pstateOf m Initial = Settled Fulfilled"
      "\<forall>k\<in>set ds. doneUnit m k"
      by (auto simp: queueAt_def)
    then show ?thesis by (auto simp: lastSo_def doneUnit_def)
  next
    case (Some ap)
    then obtain a ph where a: "act = Some (a, ph)" by (cases ap) auto
    with q have s: "stateOp m = lastSo (ds @ a # ws)" and act: "activeUnit m (lastSo ds) a ph"
      and wait: "waitingFrom m (So a) ws"
      by (auto simp: queueAt_def)
    from act have "pstateOf m (So a) = Pending" by (simp add: activeUnit_def)
    with s waitingFrom_member [OF wait, of "last ws"] show ?thesis
      by (auto simp: lastSo_def)
  qed
  have all: "\<forall>k\<in>set (submitted m).
               \<exists>m'. failingRun m m' \<and> reachable m' \<and> k \<in> set (started m')"
  proof
    fix k assume k: "k \<in> set (submitted m)"
    have "\<exists>m'. failingRun m m' \<and> k \<in> set (started m')"
    proof (cases act)
      case None
      with q k have "k \<in> set (started m)" by (simp add: queueAt_def)
      then show ?thesis by (blast intro: failingRun.Here)
    next
      case (Some ap)
      then obtain a ph where a: "act = Some (a, ph)" by (cases ap) auto
      with q have qa: "queueAt m ds (Some (a, ph)) ws" by simp
      show ?thesis
      proof (cases "k \<in> set ds")
        case True
        with qa have "k \<in> set (started m)" by (simp add: queueAt_def)
        then show ?thesis by (blast intro: failingRun.Here)
      next
        case False
        with k sub a have "k \<in> set (a # ws)" by simp
        with qa show ?thesis by (rule waiting_unit_starts)
      qed
    qed
    then show "\<exists>m'. failingRun m m' \<and> reachable m' \<and> k \<in> set (started m')"
      using r by (blast intro: failingRun_reachable)
  qed
  from one lastr fifo fin nr all show ?thesis by blast
qed

lemmas queue_eval = queueSample_def finishUnit_def runJob_def runStateOp_def thenP_def settle_def
  initMachine_def callReaction_def Let_def

lemma queueSample_reachable: "reachable queueSample"
proof -
  let ?m1 = "runStateOp 1 initMachine"
  let ?m2 = "runStateOp 2 ?m1"
  let ?m3 = "runJob (Fulfilled, callReaction 1)
               (?m2\<lparr>jobs := remove1 (Fulfilled, callReaction 1) (jobs ?m2)\<rparr>)"
  have "1 \<notin> set (submitted initMachine)" by (simp add: initMachine_def)
  then have "step initMachine ?m1" by (rule step.Submit)
  with reachable.Start have r1: "reachable ?m1" by (rule reachable.After)
  have "2 \<notin> set (submitted ?m1)" by (simp add: queue_eval)
  then have "step ?m1 ?m2" by (rule step.Submit)
  with r1 have r2: "reachable ?m2" by (rule reachable.After)
  have "(Fulfilled, callReaction 1) \<in> set (jobs ?m2)" by (simp add: queue_eval)
  then have "step ?m2 ?m3" by (rule step.Job)
  with r2 have r3: "reachable ?m3" by (rule reachable.After)
  have "unitOf ?m3 1 = Running" by (simp add: queue_eval)
  then have "step ?m3 (finishUnit 1 Rejected ?m3)" by (rule step.Finish)
  with r3 have "reachable (finishUnit 1 Rejected ?m3)" by (rule reachable.After)
  then show ?thesis by (simp only: queueSample_def)
qed

theorem serialisation_queue_witness:
  "reachable queueSample
   \<and> submitted queueSample = [1, 2]
   \<and> unitOf queueSample 1 = Finished Rejected
   \<and> started queueSample = take (length (started queueSample)) (submitted queueSample)
   \<and> pstateOf queueSample (stateOp queueSample) \<noteq> Settled Rejected
   \<and> (\<exists>m'. failingRun queueSample m' \<and> reachable m' \<and> 2 \<in> set (started m'))"
proof -
  have s: "submitted queueSample = [1, 2]" by (simp add: queue_eval)
  have u: "unitOf queueSample 1 = Finished Rejected" by (simp add: queue_eval)
  from s have "2 \<in> set (submitted queueSample)" by simp
  with serialisation_queue [OF queueSample_reachable] queueSample_reachable s u
  show ?thesis by blast
qed

end
